theory Spec2Isabelle
  imports Complex_Main
begin

section \<open>Python strings and the string operations the recipes use\<close>

text \<open>
  A Python \<open>str\<close> is a sequence of Unicode code points; the recipes work on Arabic
  text, so a string is a list of code points (natural numbers), and \<open>asc\<close> reads an
  ASCII literal.
\<close>

type_synonym ustr = "nat list"

definition asc :: "string \<Rightarrow> ustr" where
  "asc s = map of_char s"

text \<open>
  The characters Python counts as whitespace (\<open>str.isspace\<close>, \<open>str.split()\<close>,
  \<open>str.strip()\<close> and the class \<open>\s\<close> of \<open>re\<close> on a \<open>str\<close> pattern all use the same
  table).
\<close>

definition is_space :: "nat \<Rightarrow> bool" where
  "is_space c = ((9 \<le> c \<and> c \<le> 13) \<or> (28 \<le> c \<and> c \<le> 32) \<or> c = 133 \<or> c = 160
      \<or> c = 5760 \<or> (8192 \<le> c \<and> c \<le> 8202) \<or> c = 8232 \<or> c = 8233 \<or> c = 8239
      \<or> c = 8287 \<or> c = 12288)"

text \<open>\<open>old in text\<close>: does \<open>old\<close> occur in \<open>text\<close> as a substring.\<close>

fun starts_with :: "ustr \<Rightarrow> ustr \<Rightarrow> bool" where
  "starts_with [] s = True"
| "starts_with (a # as) [] = False"
| "starts_with (a # as) (b # bs) = (a = b \<and> starts_with as bs)"

fun str_in :: "ustr \<Rightarrow> ustr \<Rightarrow> bool" where
  "str_in w [] = (w = [])"
| "str_in w (c # cs) = (starts_with w (c # cs) \<or> str_in w cs)"

text \<open>
  \<open>text.replace(old, new)\<close>: every non-overlapping occurrence of \<open>old\<close>, found from
  the left, is replaced; an empty \<open>old\<close> matches before every character and at the end.
\<close>

function str_replace :: "ustr \<Rightarrow> ustr \<Rightarrow> ustr \<Rightarrow> ustr" where
  "str_replace old new [] = (if old = [] then new else [])"
| "str_replace old new (c # cs) =
     (if old = [] then new @ c # str_replace old new cs
      else if starts_with old (c # cs)
        then new @ str_replace old new (drop (length old) (c # cs))
        else c # str_replace old new cs)"
  by pat_completeness auto
termination
  by (relation "measure (\<lambda>(old, new, s). length s)") auto

text \<open>\<open>text.strip()\<close>, \<open>text.split()\<close>, \<open>text.split(sep)\<close> for a one-character separator,
  \<open>text.split(maxsplit=n)\<close> and \<open>sep.join(words)\<close>.\<close>

definition py_strip :: "ustr \<Rightarrow> ustr" where
  "py_strip s = rev (dropWhile is_space (rev (dropWhile is_space s)))"

function py_split :: "ustr \<Rightarrow> ustr list" where
  "py_split s =
     (case dropWhile is_space s of
        [] \<Rightarrow> []
      | c # cs \<Rightarrow> (c # takeWhile (\<lambda>x. \<not> is_space x) cs)
                 # py_split (dropWhile (\<lambda>x. \<not> is_space x) cs))"
  by pat_completeness auto
termination
proof (relation "measure length", simp, goal_cases)
  case (1 s c cs)
  have "length (dropWhile (\<lambda>x. \<not> is_space x) cs) \<le> length cs"
    by (rule length_dropWhile_le)
  moreover have "length (dropWhile is_space s) \<le> length s"
    by (rule length_dropWhile_le)
  ultimately show ?case using 1 by simp
qed

declare py_split.simps [simp del]

fun split_on :: "nat \<Rightarrow> ustr \<Rightarrow> ustr list" where
  "split_on sep [] = [[]]"
| "split_on sep (c # cs) =
     (if c = sep then [] # split_on sep cs
      else (case split_on sep cs of
              [] \<Rightarrow> [[c]]
            | w # ws \<Rightarrow> (c # w) # ws))"

function py_split_max :: "nat \<Rightarrow> ustr \<Rightarrow> ustr list" where
  "py_split_max n s =
     (case dropWhile is_space s of
        [] \<Rightarrow> []
      | c # cs \<Rightarrow>
          (if n = 0 then [c # cs]
           else (c # takeWhile (\<lambda>x. \<not> is_space x) cs)
                  # py_split_max (n - 1) (dropWhile (\<lambda>x. \<not> is_space x) cs)))"
  by pat_completeness auto
termination
proof (relation "measure (\<lambda>(n, s). length s)", simp, goal_cases)
  case (1 n s c cs)
  have "length (dropWhile (\<lambda>x. \<not> is_space x) cs) \<le> length cs"
    by (rule length_dropWhile_le)
  moreover have "length (dropWhile is_space s) \<le> length s"
    by (rule length_dropWhile_le)
  ultimately show ?case using 1 by simp
qed

declare py_split_max.simps [simp del]

fun py_join :: "ustr \<Rightarrow> ustr list \<Rightarrow> ustr" where
  "py_join sep [] = []"
| "py_join sep [w] = w"
| "py_join sep (w # v # ws) = w @ sep @ py_join sep (v # ws)"

section \<open>The Python runtime\<close>

text \<open>
  The recipes call into the Python runtime for the Unicode tables and for number
  parsing. These are not part of the repository; the model takes them as a record of
  functions:
  \<^item> \<open>py_lower\<close> is \<open>str.lower\<close>;
  \<^item> \<open>re_digit\<close> is the class \<open>\d\<close> of \<open>re\<close> (Unicode decimal digits);
  \<^item> \<open>py_isnumeric\<close> is \<open>str.isnumeric\<close> on one character;
  \<^item> \<open>py_Decimal\<close> is \<open>decimal.Decimal\<close> on a string, \<open>None\<close> when it raises
    \<open>InvalidOperation\<close>;
  \<^item> \<open>py_float\<close> is \<open>float\<close> on a string and \<open>py_int\<close> is \<open>int\<close> on a string, \<open>None\<close>
    when they raise \<open>ValueError\<close>.
  Times are rational numbers: the rounding of binary floating point is outside the
  model.
\<close>

record pyrt =
  py_lower :: "ustr \<Rightarrow> ustr"
  re_digit :: "nat \<Rightarrow> bool"
  py_isnumeric :: "nat \<Rightarrow> bool"
  py_Decimal :: "ustr \<Rightarrow> rat option"
  py_float :: "ustr \<Rightarrow> rat option"
  py_int :: "ustr \<Rightarrow> int option"

section \<open>Text normalisation\<close>

subsection \<open>Stages shared by the four recipes\<close>

text \<open>\<open>remove_special_words\<close>: the loop over \<open>words_to_remove\<close>.\<close>

definition remove_special_words_with :: "ustr list \<Rightarrow> ustr \<Rightarrow> ustr" where
  "remove_special_words_with words text =
     fold (\<lambda>word t. if str_in word t then str_replace word [] t else t) words text"

text \<open>\<open>remove_diacritics\<close>: the class of U+064B to U+0652, U+06D4, U+0670, U+0674 and
  U+06D5 to U+06ED.\<close>

definition is_diacritic :: "nat \<Rightarrow> bool" where
  "is_diacritic c = ((1611 \<le> c \<and> c \<le> 1618) \<or> c = 1748 \<or> c = 1648 \<or> c = 1652
      \<or> (1749 \<le> c \<and> c \<le> 1773))"

definition remove_diacritics :: "ustr \<Rightarrow> ustr" where
  "remove_diacritics text = filter (\<lambda>c. \<not> is_diacritic c) text"

text \<open>
  \<open>remove_punctuations\<close>: \<open>arabic_punctuations + string.punctuation\<close>. The source
  iterates over a \<open>set\<close>, whose order is not fixed; the model iterates in the order of
  the two strings (the result does not depend on the order, see
  \<open>remove_punctuations_with_map\<close>). Gulf, Levantine and QASR replace by a space, Iraqi by
  the empty string.
\<close>

definition arabic_punctuations :: ustr where
  "arabic_punctuations = [64831, 64830, 96, 247, 215, 1563, 60, 62, 95, 40, 41, 42, 38,
     94, 37, 93, 91, 1600, 1548, 47, 58, 34, 1567, 46, 44, 39, 123, 125, 126, 166, 43,
     124, 33, 8221, 8230, 8220, 8211, 1600]"

definition english_punctuations :: ustr where
  "english_punctuations = [33, 34, 35, 36, 37, 38, 39, 40, 41, 42, 43, 44, 45, 46, 47,
     58, 59, 60, 61, 62, 63, 64, 91, 92, 93, 94, 95, 96, 123, 124, 125, 126]"

definition all_punctuations :: ustr where
  "all_punctuations = arabic_punctuations @ english_punctuations"

definition remove_punctuations_with :: "ustr \<Rightarrow> ustr \<Rightarrow> ustr \<Rightarrow> ustr" where
  "remove_punctuations_with new ps text =
     fold (\<lambda>p t. if p \<in> set t then str_replace [p] new t else t) ps text"

definition remove_punctuations :: "ustr \<Rightarrow> ustr" where
  "remove_punctuations text = remove_punctuations_with [32] all_punctuations text"

definition remove_punctuations_iraqi :: "ustr \<Rightarrow> ustr" where
  "remove_punctuations_iraqi text = remove_punctuations_with [] all_punctuations text"

text \<open>\<open>remove_non_alphanumeric\<close>: lower-case, then delete
  the complement of U+0600 to U+06FF, \<open>\s\<close>, \<open>\d\<close> and \<open>a-z\<close>.\<close>

definition kept_char :: "pyrt \<Rightarrow> nat \<Rightarrow> bool" where
  "kept_char rt c = ((1536 \<le> c \<and> c \<le> 1791) \<or> is_space c \<or> re_digit rt c
      \<or> (97 \<le> c \<and> c \<le> 122))"

definition remove_non_alphanumeric :: "pyrt \<Rightarrow> ustr \<Rightarrow> ustr" where
  "remove_non_alphanumeric rt text = filter (kept_char rt) (py_lower rt text)"

text \<open>
  \<open>remove_extra_space\<close>: \<open>sub("\s+", " ", text)\<close> then \<open>sub("\s+\.\s+", ".", text)\<close>.
  A match of the second pattern at a whitespace character is the whole run of
  whitespace, a dot, and the whole run of whitespace after it (at least one); the scan
  resumes after the match.
\<close>

function collapse_ws :: "ustr \<Rightarrow> ustr" where
  "collapse_ws [] = []"
| "collapse_ws (c # cs) =
     (if is_space c then 32 # collapse_ws (dropWhile is_space cs)
      else c # collapse_ws cs)"
  by pat_completeness auto
termination
  by (relation "measure length") (auto simp: le_imp_less_Suc length_dropWhile_le)

function sub_ws_dot_ws :: "ustr \<Rightarrow> ustr" where
  "sub_ws_dot_ws [] = []"
| "sub_ws_dot_ws (c # cs) =
     (if is_space c then
        (case dropWhile is_space cs of
           [] \<Rightarrow> c # sub_ws_dot_ws cs
         | d # r \<Rightarrow>
             (if d = 46 \<and> r \<noteq> [] \<and> is_space (hd r)
              then 46 # sub_ws_dot_ws (dropWhile is_space r)
              else c # sub_ws_dot_ws cs))
      else c # sub_ws_dot_ws cs)"
  by pat_completeness auto
termination
proof (relation "measure length")
  fix c cs d r
  assume "dropWhile is_space cs = d # r"
  then have "Suc (length r) = length (dropWhile is_space cs)"
    by simp
  also have "\<dots> \<le> length cs"
    by (rule length_dropWhile_le)
  finally have "length r < length (c # cs)"
    by simp
  moreover have "length (dropWhile is_space r) \<le> length r"
    by (rule length_dropWhile_le)
  ultimately show "(dropWhile is_space r, c # cs) \<in> measure length"
    by simp
qed simp_all

definition remove_extra_space :: "ustr \<Rightarrow> ustr" where
  "remove_extra_space text = sub_ws_dot_ws (collapse_ws text)"

subsection \<open>Gulf, Iraqi and Levantine\<close>

definition words_to_remove_gulf :: "ustr list" where
  "words_to_remove_gulf =
    [[40, 1590, 1580, 1577, 41],
     [40, 1590, 1580, 1577, 92, 41],
     [40, 1578, 1606, 1601, 1587, 41],
     [40, 40, 41, 41],
     [40, 1590, 1581, 1603, 41],
     [40, 1575, 1604, 1588, 1601, 1577, 41],
     [40, 45, 97, 112, 32, 80, 114, 111, 110, 111, 117, 110, 99, 101, 100, 41],
     [40, 108, 97, 109, 32, 80, 114, 111, 110, 111, 117, 110, 99, 101, 100, 41],
     [40, 70, 79, 82, 41],
     [40, 1587, 1593, 1575, 1604, 41],
     [40, 1593, 1591, 1587, 41],
     [40, 69, 78, 71, 76, 73, 83, 72],
     [40, 70, 82, 69, 78, 67, 72],
     [40, 75, 85, 82, 68, 73, 83, 72],
     [40, 80, 65, 75, 73, 83, 84, 65, 78, 73]]"

definition words_to_remove_levant :: "ustr list" where
  "words_to_remove_levant =
    [[37, 1590, 1580, 1617, 1577],
     [37, 1571, 1589, 1608, 1575, 1578],
     [37, 1571, 1580, 1606, 1576, 1610],
     [40, 40, 41, 41],
     [37, 1578, 1606, 1601, 1617, 1587],
     [37, 1605, 1607, 1605],
     [37, 1578, 1583, 1575, 1582, 1604],
     [37, 1578, 1583, 1575, 1582, 1604, 92],
     [37, 1587, 1593, 1575, 1604],
     [37, 1589, 1605, 1578],
     [37, 1605, 1578, 1603, 1604, 1605, 1580, 1583, 1610, 1583],
     [37, 1605, 1578, 1603, 1604, 1605, 1580, 1583, 1610, 1583, 92],
     [37, 1590, 1581, 1603]]"

text \<open>\<open>cleaning\<close> of \<open>callhome_gulf.py\<close>, \<open>callhome_iraqi.py\<close> (the same list of
  special words as Gulf, punctuation deleted) and \<open>callhome_levant.py\<close>.\<close>

definition cleaning_gulf :: "pyrt \<Rightarrow> ustr \<Rightarrow> ustr" where
  "cleaning_gulf rt text =
     py_strip (remove_extra_space (remove_non_alphanumeric rt (remove_punctuations
       (remove_diacritics (remove_special_words_with words_to_remove_gulf text)))))"

definition cleaning_iraqi :: "pyrt \<Rightarrow> ustr \<Rightarrow> ustr" where
  "cleaning_iraqi rt text =
     py_strip (remove_extra_space (remove_non_alphanumeric rt (remove_punctuations_iraqi
       (remove_diacritics (remove_special_words_with words_to_remove_gulf text)))))"

definition cleaning_levant :: "pyrt \<Rightarrow> ustr \<Rightarrow> ustr" where
  "cleaning_levant rt text =
     py_strip (remove_extra_space (remove_non_alphanumeric rt (remove_punctuations
       (remove_diacritics (remove_special_words_with words_to_remove_levant text)))))"

subsection \<open>QASR\<close>

text \<open>\<open>east_to_west_num\<close>: \<open>str.translate\<close> with the table \<open>eastern_to_western\<close>.\<close>

definition eastern_to_western :: "nat \<Rightarrow> nat option" where
  "eastern_to_western c =
     (if 1632 \<le> c \<and> c \<le> 1641 then Some (c - 1584)
      else if c = 1642 then Some 37
      else if c = 95 then Some 32
      else if c = 1700 then Some 1601
      else if c = 124 then Some 32
      else None)"

definition east_to_west_num :: "ustr \<Rightarrow> ustr" where
  "east_to_west_num text =
     map (\<lambda>c. case eastern_to_western c of None \<Rightarrow> c | Some d \<Rightarrow> d) text"

text \<open>\<open>remove_single_char_word\<close>: a word is kept when \<open>len(word) > 1 or
  word.isnumeric()\<close>; a non-empty word is numeric when all its characters are.\<close>

definition str_isnumeric :: "pyrt \<Rightarrow> ustr \<Rightarrow> bool" where
  "str_isnumeric rt w = (w \<noteq> [] \<and> list_all (py_isnumeric rt) w)"

definition remove_single_char_word :: "pyrt \<Rightarrow> ustr \<Rightarrow> ustr" where
  "remove_single_char_word rt text =
     py_join [32] (filter (\<lambda>word. length word > 1 \<or> str_isnumeric rt word)
                     (py_split text))"

definition cleaning_qasr :: "pyrt \<Rightarrow> ustr \<Rightarrow> ustr" where
  "cleaning_qasr rt text =
     remove_extra_space (remove_single_char_word rt (remove_non_alphanumeric rt
       (remove_diacritics (east_to_west_num (remove_punctuations text)))))"

section \<open>Number formatting\<close>

text \<open>\<open>str(n)\<close> for an \<open>int\<close>, the format specifications \<open>{x:0>2s}\<close> and \<open>{idx:0>5d}\<close>
  (pad on the left with \<open>0\<close> up to a minimal width) and \<open>str.zfill\<close> (the same, after a
  leading sign).\<close>

function str_nat :: "nat \<Rightarrow> ustr" where
  "str_nat n = (if n < 10 then [48 + n] else str_nat (n div 10) @ [48 + n mod 10])"
  by pat_completeness auto
termination
  by (relation "measure id") auto

declare str_nat.simps [simp del]

definition str_int :: "int \<Rightarrow> ustr" where
  "str_int i = (if i < 0 then 45 # str_nat (nat (- i)) else str_nat (nat i))"

definition pad_left :: "nat \<Rightarrow> nat \<Rightarrow> ustr \<Rightarrow> ustr" where
  "pad_left fill width s = replicate (width - length s) fill @ s"

definition zfill :: "nat \<Rightarrow> ustr \<Rightarrow> ustr" where
  "zfill width s =
     (case s of
        c # cs \<Rightarrow> if c = 43 \<or> c = 45 then c # replicate (width - length s) 48 @ cs
                  else replicate (width - length s) 48 @ s
      | [] \<Rightarrow> replicate width 48)"

section \<open>Segments and recordings\<close>

datatype error = ValueError | TypeError | IndexError | InvalidOperation | AssertionError

datatype speaker = Speaker_name ustr | Speaker_index int

record segment =
  seg_id :: ustr
  seg_recording_id :: ustr
  seg_start :: rat
  seg_duration :: rat
  seg_channel :: int
  seg_text :: ustr
  seg_speaker :: speaker
  seg_language :: "ustr option"

record recording =
  rec_id :: ustr
  rec_duration :: rat
  rec_channels :: nat

section \<open>Gulf: tab-delimited transcripts\<close>

text \<open>
  The body of the loop over the lines of one transcript file in
  \<open>prepare_callhome_gulf\<close>. The result is \<open>Inl\<close> for an exception, \<open>Inr None\<close> for
  \<open>continue\<close> and \<open>Inr (Some seg)\<close> for a segment appended (after which \<open>idx\<close> is
  incremented).
\<close>

definition gulf_spk :: "ustr \<Rightarrow> ustr" where
  "gulf_spk spk = filter (\<lambda>c. \<not> (48 \<le> c \<and> c \<le> 57)) (str_replace [58] [] spk)"

definition gulf_channel :: "ustr \<Rightarrow> ustr \<Rightarrow> error + int" where
  "gulf_channel split spk =
     (if split = asc ''train1c'' then Inr 0
      else (case spk of [c] \<Rightarrow> Inr (int c - 65) | _ \<Rightarrow> Inl TypeError))"

text \<open>The id \<open>f"{recording_id}_{spk:0>2s}_{idx:0>5d}"\<close> and the segment that the three
  recipes build from it.\<close>

definition callhome_id :: "ustr \<Rightarrow> ustr \<Rightarrow> nat \<Rightarrow> ustr" where
  "callhome_id rid spk idx = rid @ [95] @ pad_left 48 2 spk @ [95] @ pad_left 48 5 (str_nat idx)"

definition callhome_segment :: "ustr \<Rightarrow> ustr \<Rightarrow> nat \<Rightarrow> rat \<Rightarrow> rat \<Rightarrow> ustr \<Rightarrow> int \<Rightarrow> segment" where
  "callhome_segment rid spk idx st dur txt ch =
     \<lparr> seg_id = callhome_id rid spk idx,
       seg_recording_id = rid,
       seg_start = st,
       seg_duration = dur,
       seg_channel = ch,
       seg_text = txt,
       seg_speaker = Speaker_name (rid @ [95] @ pad_left 48 2 spk),
       seg_language = None \<rparr>"

text \<open>Lines 76 to 101 of the source: from the two time stamps, the speaker tag and the
  text of a line to its segment.\<close>

definition gulf_segment ::
  "pyrt \<Rightarrow> bool \<Rightarrow> ustr \<Rightarrow> ustr \<Rightarrow> nat \<Rightarrow> ustr \<Rightarrow> ustr \<Rightarrow> ustr \<Rightarrow> ustr
     \<Rightarrow> error + segment option" where
  "gulf_segment rt text_cleaning split stem idx start fin spk text0 =
     (case py_Decimal rt fin of
        None \<Rightarrow> Inl InvalidOperation
      | Some e \<Rightarrow>
     (case py_Decimal rt start of
        None \<Rightarrow> Inl InvalidOperation
      | Some s \<Rightarrow>
     (let dur = e - s;
          txt = (if text_cleaning then cleaning_gulf rt text0 else text0) in
      if dur \<le> 0 \<or> txt = [] then Inr None
      else
        (case gulf_channel split spk of
           Inl err \<Rightarrow> Inl err
         | Inr ch \<Rightarrow>
             (case py_float rt start of
                None \<Rightarrow> Inl ValueError
              | Some st \<Rightarrow> Inr (Some (callhome_segment stem spk idx st dur txt ch)))))))"

text \<open>Lines 72 to 75: the brackets are deleted from the time field, which must then
  split into two words; the speaker tag loses its colons and its digits.\<close>

definition gulf_record ::
  "pyrt \<Rightarrow> bool \<Rightarrow> ustr \<Rightarrow> ustr \<Rightarrow> nat \<Rightarrow> ustr \<Rightarrow> ustr \<Rightarrow> ustr \<Rightarrow> error + segment option" where
  "gulf_record rt text_cleaning split stem idx time spk0 text0 =
     (case py_split (filter (\<lambda>c. c \<noteq> 91 \<and> c \<noteq> 93) time) of
        [start, fin] \<Rightarrow>
          gulf_segment rt text_cleaning split stem idx start fin (gulf_spk spk0) text0
      | _ \<Rightarrow> Inl ValueError)"

text \<open>Lines 65 to 71: the guard, and the unpacking of the four fields.\<close>

definition gulf_line ::
  "pyrt \<Rightarrow> bool \<Rightarrow> ustr \<Rightarrow> ustr \<Rightarrow> nat \<Rightarrow> ustr \<Rightarrow> error + segment option" where
  "gulf_line rt text_cleaning split stem idx raw =
     (let line = py_strip raw in
      if line = [] \<or> length (split_on 9 line) < 4 then Inr None
      else
        (case split_on 9 line of
           [time, spk0, text0, text_bw] \<Rightarrow>
             gulf_record rt text_cleaning split stem idx time spk0 text0
         | _ \<Rightarrow> Inl ValueError))"

text \<open>The loop over the lines of one file, and the loop over the transcript files of a
  split (each file is its stem and its lines; \<open>idx\<close> starts at 0 in every file).\<close>

fun gulf_lines ::
  "pyrt \<Rightarrow> bool \<Rightarrow> ustr \<Rightarrow> ustr \<Rightarrow> nat \<Rightarrow> ustr list \<Rightarrow> error + segment list" where
  "gulf_lines rt tc split stem idx [] = Inr []"
| "gulf_lines rt tc split stem idx (raw # rest) =
     (case gulf_line rt tc split stem idx raw of
        Inl err \<Rightarrow> Inl err
      | Inr None \<Rightarrow> gulf_lines rt tc split stem idx rest
      | Inr (Some seg) \<Rightarrow>
          (case gulf_lines rt tc split stem (idx + 1) rest of
             Inl err \<Rightarrow> Inl err
           | Inr segs \<Rightarrow> Inr (seg # segs)))"

fun gulf_files ::
  "pyrt \<Rightarrow> bool \<Rightarrow> ustr \<Rightarrow> (ustr \<times> ustr list) list \<Rightarrow> error + segment list" where
  "gulf_files rt tc split [] = Inr []"
| "gulf_files rt tc split ((stem, lines) # rest) =
     (case gulf_lines rt tc split stem 0 lines of
        Inl err \<Rightarrow> Inl err
      | Inr segs \<Rightarrow>
          (case gulf_files rt tc split rest of
             Inl err \<Rightarrow> Inl err
           | Inr others \<Rightarrow> Inr (segs @ others)))"

section \<open>Levantine: whitespace-delimited transcripts\<close>

text \<open>Lines 99 to 122 of the source. Unlike Gulf, the digits of the speaker tag are
  kept, \<open>float(start)\<close> comes before \<open>ord(spk)\<close>, and every split has two channels.\<close>

definition levant_segment ::
  "pyrt \<Rightarrow> bool \<Rightarrow> ustr \<Rightarrow> nat \<Rightarrow> ustr \<Rightarrow> ustr \<Rightarrow> ustr \<Rightarrow> ustr \<Rightarrow> error + segment option" where
  "levant_segment rt text_cleaning rid idx start fin spk text0 =
     (case py_Decimal rt fin of
        None \<Rightarrow> Inl InvalidOperation
      | Some e \<Rightarrow>
     (case py_Decimal rt start of
        None \<Rightarrow> Inl InvalidOperation
      | Some s \<Rightarrow>
     (let dur = e - s;
          txt = (if text_cleaning then cleaning_levant rt text0 else text0) in
      if dur \<le> 0 \<or> txt = [] then Inr None
      else
        (case py_float rt start of
           None \<Rightarrow> Inl ValueError
         | Some st \<Rightarrow>
             (case spk of
                [c] \<Rightarrow> Inr (Some (callhome_segment rid spk idx st dur txt (int c - 65)))
              | _ \<Rightarrow> Inl TypeError)))))"

text \<open>Lines 92 to 98: the guard, the lower-cased stem, and the four fields.\<close>

definition levant_line ::
  "pyrt \<Rightarrow> bool \<Rightarrow> ustr \<Rightarrow> nat \<Rightarrow> ustr \<Rightarrow> error + segment option" where
  "levant_line rt text_cleaning stem idx raw =
     (let line = py_strip raw in
      if line = [] \<or> length (py_split line) < 4 then Inr None
      else
        (case py_split_max 3 line of
           [start, fin, spk0, text0] \<Rightarrow>
             levant_segment rt text_cleaning (py_lower rt stem) idx start fin
               (str_replace [58] [] spk0) text0
         | _ \<Rightarrow> Inl ValueError))"

fun levant_lines :: "pyrt \<Rightarrow> bool \<Rightarrow> ustr \<Rightarrow> nat \<Rightarrow> ustr list \<Rightarrow> error + segment list" where
  "levant_lines rt tc stem idx [] = Inr []"
| "levant_lines rt tc stem idx (raw # rest) =
     (case levant_line rt tc stem idx raw of
        Inl err \<Rightarrow> Inl err
      | Inr None \<Rightarrow> levant_lines rt tc stem idx rest
      | Inr (Some seg) \<Rightarrow>
          (case levant_lines rt tc stem (idx + 1) rest of
             Inl err \<Rightarrow> Inl err
           | Inr segs \<Rightarrow> Inr (seg # segs)))"

fun levant_files :: "pyrt \<Rightarrow> bool \<Rightarrow> (ustr \<times> ustr list) list \<Rightarrow> error + segment list" where
  "levant_files rt tc [] = Inr []"
| "levant_files rt tc ((stem, lines) # rest) =
     (case levant_lines rt tc stem 0 lines of
        Inl err \<Rightarrow> Inl err
      | Inr segs \<Rightarrow>
          (case levant_files rt tc rest of
             Inl err \<Rightarrow> Inl err
           | Inr others \<Rightarrow> Inr (segs @ others)))"

section \<open>Manifest assembly\<close>

text \<open>
  \<open>SupervisionSet.from_segments\<close>, \<open>fix_manifests\<close> and
  \<open>validate_recordings_and_supervisions\<close> belong to the library part of the repository
  and are not among the recipe sources; they are modelled from the specification. The
  tolerance \<open>eps\<close>, which the specification leaves open, is a parameter.
\<close>

text \<open>Modelled from the spec: \<open>SupervisionSet.from_segments\<close> is missing; the
  specification says the constructor enforces uniqueness of the segment ids, so a
  collection with a repeated id is rejected.\<close>

definition from_segments :: "segment list \<Rightarrow> error + segment list" where
  "from_segments segs = (if distinct (map seg_id segs) then Inr segs else Inl AssertionError)"

text \<open>Modelled from the spec: \<open>fix_manifests\<close> is missing; the specification says it
  drops the supervisions whose recording id has no matching recording and truncates an
  end that exceeds the recording's duration by no more than the tolerance.\<close>

definition fix_supervision :: "rat \<Rightarrow> recording list \<Rightarrow> segment \<Rightarrow> segment option" where
  "fix_supervision eps recs s =
     (case find (\<lambda>r. rec_id r = seg_recording_id s) recs of
        None \<Rightarrow> None
      | Some r \<Rightarrow>
          Some (if rec_duration r < seg_start s + seg_duration s
                   \<and> seg_start s + seg_duration s \<le> rec_duration r + eps
                then s \<lparr> seg_duration := rec_duration r - seg_start s \<rparr>
                else s))"

definition fix_manifests ::
  "rat \<Rightarrow> recording list \<Rightarrow> segment list \<Rightarrow> recording list \<times> segment list" where
  "fix_manifests eps recs sups = (recs, List.map_filter (fix_supervision eps recs) sups)"

text \<open>Modelled from the spec: \<open>validate_recordings_and_supervisions\<close> is missing; the
  specification lists what it asserts of every supervision: its recording exists, its
  channel is one of the recording's channels, its start is not negative and its end is
  within the recording's duration plus the tolerance.\<close>

definition valid_supervision :: "rat \<Rightarrow> recording list \<Rightarrow> segment \<Rightarrow> bool" where
  "valid_supervision eps recs s =
     (case find (\<lambda>r. rec_id r = seg_recording_id s) recs of
        None \<Rightarrow> False
      | Some r \<Rightarrow>
          0 \<le> seg_channel s \<and> seg_channel s < int (rec_channels r) \<and> 0 \<le> seg_start s
          \<and> seg_start s + seg_duration s \<le> rec_duration r + eps)"

definition validate_recordings_and_supervisions ::
  "rat \<Rightarrow> recording list \<Rightarrow> segment list \<Rightarrow> error + unit" where
  "validate_recordings_and_supervisions eps recs sups =
     (if list_all (valid_supervision eps recs) sups then Inr () else Inl AssertionError)"

text \<open>The tail shared by the recipes: \<open>fix_manifests\<close>, then validation; the pair is
  what a recipe returns and writes.\<close>

definition fix_and_validate ::
  "rat \<Rightarrow> recording list \<Rightarrow> segment list \<Rightarrow> error + recording list \<times> segment list" where
  "fix_and_validate eps recs sups =
     (case fix_manifests eps recs sups of
        (recs', sups') \<Rightarrow>
          (case validate_recordings_and_supervisions eps recs' sups' of
             Inl err \<Rightarrow> Inl err
           | Inr u \<Rightarrow> Inr (recs', sups')))"

section \<open>Gulf: the preparation call\<close>

text \<open>
  \<open>prepare_callhome_gulf\<close>: the splits in the order of the source. The corpus gives, for
  a split, the recordings found for it and its transcript files. An exception in any
  step ends the call.
\<close>

fun gulf_splits ::
  "pyrt \<Rightarrow> bool \<Rightarrow> rat \<Rightarrow> (ustr \<Rightarrow> recording list \<times> (ustr \<times> ustr list) list) \<Rightarrow> ustr list
     \<Rightarrow> error + (ustr \<times> recording list \<times> segment list) list" where
  "gulf_splits rt tc eps corpus [] = Inr []"
| "gulf_splits rt tc eps corpus (split # rest) =
     (case gulf_files rt tc split (snd (corpus split)) of
        Inl err \<Rightarrow> Inl err
      | Inr segs \<Rightarrow>
     (case from_segments segs of
        Inl err \<Rightarrow> Inl err
      | Inr sups \<Rightarrow>
     (case fix_and_validate eps (fst (corpus split)) sups of
        Inl err \<Rightarrow> Inl err
      | Inr manifest \<Rightarrow>
     (case gulf_splits rt tc eps corpus rest of
        Inl err \<Rightarrow> Inl err
      | Inr others \<Rightarrow> Inr ((split, manifest) # others)))))"

definition prepare_callhome_gulf ::
  "pyrt \<Rightarrow> bool \<Rightarrow> rat \<Rightarrow> (ustr \<Rightarrow> recording list \<times> (ustr \<times> ustr list) list)
     \<Rightarrow> error + (ustr \<times> recording list \<times> segment list) list" where
  "prepare_callhome_gulf rt text_cleaning eps corpus =
     gulf_splits rt text_cleaning eps corpus [asc ''devtest'', asc ''train2c'', asc ''train1c'']"

section \<open>QASR\<close>

subsection \<open>The flat time-coded format\<close>

text \<open>
  \<open>read_text\<close>: a line is \<open>rec_spk-index_seg-start:end\<close> followed by the text.
  \<open>qasr_decode\<close> is the decoding of the compound id (lines 172 to 175 of the source),
  \<open>qasr_segment\<close> the construction of the segment. Start and duration are
  \<open>int(s_time1)/100\<close> and \<open>round(e_time - s_time, 10)\<close>; on rational numbers the second is
  the difference itself (a multiple of one hundredth).
\<close>

record flat_record =
  fr_rec_id :: ustr
  fr_spk :: int
  fr_s_time1 :: ustr
  fr_e_time1 :: ustr
  fr_text :: ustr

definition qasr_decode :: "pyrt \<Rightarrow> ustr \<Rightarrow> error + flat_record" where
  "qasr_decode rt raw =
     (case py_split (py_strip raw) of
        [] \<Rightarrow> Inl IndexError
      | line1 # words \<Rightarrow>
          (case split_on 95 line1 of
             [rid, spk0, time] \<Rightarrow>
               (case split_on 45 spk0 of
                  p # q # _ \<Rightarrow>
                    (case py_int rt q of
                       None \<Rightarrow> Inl ValueError
                     | Some spk \<Rightarrow>
                         (case split_on 58 (str_replace (asc ''seg-'') [] time) of
                            [s_time1, e_time1] \<Rightarrow>
                              Inr \<lparr> fr_rec_id = rid, fr_spk = spk, fr_s_time1 = s_time1,
                                    fr_e_time1 = e_time1, fr_text = py_join [32] words \<rparr>
                          | _ \<Rightarrow> Inl ValueError))
                | _ \<Rightarrow> Inl IndexError)
           | _ \<Rightarrow> Inl ValueError))"

definition qasr_id :: "flat_record \<Rightarrow> ustr" where
  "qasr_id fr = fr_rec_id fr @ [95] @ str_int (fr_spk fr) @ [95] @ fr_s_time1 fr @ [95]
      @ fr_e_time1 fr"

definition qasr_segment :: "pyrt \<Rightarrow> flat_record \<Rightarrow> error + segment" where
  "qasr_segment rt fr =
     (case py_int rt (fr_s_time1 fr) of
        None \<Rightarrow> Inl ValueError
      | Some s \<Rightarrow>
          (case py_int rt (fr_e_time1 fr) of
             None \<Rightarrow> Inl ValueError
           | Some e \<Rightarrow>
               Inr \<lparr> seg_id = qasr_id fr,
                     seg_recording_id = fr_rec_id fr,
                     seg_start = of_int s / 100,
                     seg_duration = of_int e / 100 - of_int s / 100,
                     seg_channel = 0,
                     seg_text = fr_text fr,
                     seg_speaker = Speaker_index (fr_spk fr),
                     seg_language = Some (asc ''ar'') \<rparr>))"

definition qasr_line :: "pyrt \<Rightarrow> ustr \<Rightarrow> error + segment" where
  "qasr_line rt raw =
     (case qasr_decode rt raw of Inl err \<Rightarrow> Inl err | Inr fr \<Rightarrow> qasr_segment rt fr)"

fun read_text :: "pyrt \<Rightarrow> ustr list \<Rightarrow> error + segment list" where
  "read_text rt [] = Inr []"
| "read_text rt (raw # rest) =
     (case qasr_line rt raw of
        Inl err \<Rightarrow> Inl err
      | Inr seg \<Rightarrow>
          (case read_text rt rest of
             Inl err \<Rightarrow> Inl err
           | Inr segs \<Rightarrow> Inr (seg # segs)))"

subsection \<open>The structured format\<close>

text \<open>
  The id that \<open>make_supervisions\<close> builds for one \<open>segment\<close> element. The XML parser, the
  regular expression that extracts the speaker number and the floating-point product
  \<open>float(starttime)*100\<close> are outside the model: the speaker number and the two
  truncated products are arguments.
\<close>

fun before_sep :: "ustr \<Rightarrow> ustr \<Rightarrow> ustr" where
  "before_sep sep [] = []"
| "before_sep sep (c # cs) = (if starts_with sep (c # cs) then [] else c # before_sep sep cs)"

definition make_supervisions_id :: "ustr \<Rightarrow> int \<Rightarrow> int \<Rightarrow> int \<Rightarrow> ustr" where
  "make_supervisions_id xml_id spk start_cs end_cs =
     before_sep (asc ''_utt'') xml_id @ [95] @ str_int spk @ [95]
       @ zfill 7 (str_int start_cs) @ [95] @ zfill 7 (str_int end_cs)"

subsection \<open>One part of \<open>prepare_qasr\<close>\<close>

text \<open>
  From the list of segments of a part to its manifests: the set is built, the segments
  of positive duration are kept, their number is asserted, the text is cleaned by
  \<open>transform_text\<close>, then the manifests are fixed and validated.
\<close>

definition qasr_expected :: "ustr \<Rightarrow> nat" where
  "qasr_expected part =
     (if part = asc ''test'' then 5366 else if part = asc ''dev'' then 5002 else 1592226)"

definition transform_text :: "(ustr \<Rightarrow> ustr) \<Rightarrow> segment list \<Rightarrow> segment list" where
  "transform_text f sups = map (\<lambda>s. s \<lparr> seg_text := f (seg_text s) \<rparr>) sups"

definition prepare_qasr_part ::
  "pyrt \<Rightarrow> bool \<Rightarrow> rat \<Rightarrow> ustr \<Rightarrow> recording list \<Rightarrow> segment list
     \<Rightarrow> error + recording list \<times> segment list" where
  "prepare_qasr_part rt text_cleaning eps part recs supervisions_list =
     (case from_segments supervisions_list of
        Inl err \<Rightarrow> Inl err
      | Inr sset \<Rightarrow>
          (let sups = filter (\<lambda>s. 0 < seg_duration s) sset in
           if length sups \<noteq> qasr_expected part then Inl AssertionError
           else fix_and_validate eps recs
                  (if text_cleaning then transform_text (cleaning_qasr rt) sups else sups)))"

definition prepare_qasr_flat ::
  "pyrt \<Rightarrow> bool \<Rightarrow> rat \<Rightarrow> ustr \<Rightarrow> recording list \<Rightarrow> ustr list
     \<Rightarrow> error + recording list \<times> segment list" where
  "prepare_qasr_flat rt text_cleaning eps part recs lines =
     (case read_text rt lines of
        Inl err \<Rightarrow> Inl err
      | Inr segs \<Rightarrow> prepare_qasr_part rt text_cleaning eps part recs segs)"

section \<open>The Levantine split\<close>

text \<open>
  \<open>lev_split\<close>. What the function does to the outside is a list of events, in order: the
  call of \<open>pdb.set_trace()\<close>, which stops the program in the debugger until commands
  arrive on the standard input, the lines printed, and the files written. The
  patterns are matched at the start of the id (\<open>re.match\<close>).
\<close>

datatype event = Breakpoint | Print ustr | To_file ustr

definition dev_re :: "ustr \<Rightarrow> bool" where
  "dev_re s = (starts_with (asc ''fla_00'') s
      \<and> (case drop 6 s of a # b # _ \<Rightarrow> 48 \<le> a \<and> a \<le> 55 \<and> 48 \<le> b \<and> b \<le> 57 | _ \<Rightarrow> False))"

definition test_re :: "ustr \<Rightarrow> bool" where
  "test_re s = (starts_with (asc ''fla_01'') s
      \<and> (case drop 6 s of a # b # _ \<Rightarrow> 48 \<le> a \<and> a \<le> 55 \<and> 48 \<le> b \<and> b \<le> 57 | _ \<Rightarrow> False))"

record lev_parts =
  sup_lev_train :: "segment list"
  sup_lev_dev :: "segment list"
  sup_lev_test :: "segment list"
  rec_lev_train :: "recording list"
  rec_lev_dev :: "recording list"
  rec_lev_test :: "recording list"

definition lev_filters :: "segment list \<Rightarrow> recording list \<Rightarrow> lev_parts" where
  "lev_filters all_supervisions all_recordings =
     \<lparr> sup_lev_train = filter (\<lambda>x. \<not> test_re (seg_recording_id x) \<and> \<not> dev_re (seg_recording_id x))
                         all_supervisions,
       sup_lev_dev = filter (\<lambda>x. dev_re (seg_recording_id x)) all_supervisions,
       sup_lev_test = filter (\<lambda>x. test_re (seg_recording_id x)) all_supervisions,
       rec_lev_train = filter (\<lambda>x. \<not> test_re (rec_id x) \<and> \<not> dev_re (rec_id x)) all_recordings,
       rec_lev_dev = filter (\<lambda>x. dev_re (rec_id x)) all_recordings,
       rec_lev_test = filter (\<lambda>x. test_re (rec_id x)) all_recordings \<rparr>"

definition lev_split ::
  "segment list \<Rightarrow> recording list \<Rightarrow> ustr \<Rightarrow> event list \<times> (error + lev_parts)" where
  "lev_split all_supervisions all_recordings output_dir =
     (let parts = lev_filters all_supervisions all_recordings;
          before = [Breakpoint,
                    Print (asc ''Total number of recordings '' @ str_nat (length all_recordings)),
                    Print (asc ''Checking the splitting...'')] in
      if length (rec_lev_dev parts) \<noteq> 79 then (before, Inl AssertionError)
      else if length (rec_lev_test parts) \<noteq> 80 then (before, Inl AssertionError)
      else if length (rec_lev_train parts) \<noteq> 1499 then (before, Inl AssertionError)
      else (before @ [Print (asc ''Saving cutsets...''),
                      To_file (output_dir @ asc ''/lev_recordings_train.jsonl.gz''),
                      To_file (output_dir @ asc ''/lev_supervisions_train.jsonl.gz''),
                      To_file (output_dir @ asc ''/lev_recordings_dev.jsonl.gz''),
                      To_file (output_dir @ asc ''/lev_supervisions_dev.jsonl.gz''),
                      To_file (output_dir @ asc ''/lev_recordings_test.jsonl.gz''),
                      To_file (output_dir @ asc ''/lev_supervisions_test.jsonl.gz'')],
            Inr parts))"

section \<open>A small runtime for examples\<close>

text \<open>
  An instance of the runtime that is enough for ASCII examples: case mapping of the
  letters \<open>A\<close> to \<open>Z\<close>, the digits \<open>0\<close> to \<open>9\<close>, and numerals written with digits and at
  most one decimal point.
\<close>

definition ascii_lower :: "ustr \<Rightarrow> ustr" where
  "ascii_lower s = map (\<lambda>c. if 65 \<le> c \<and> c \<le> 90 then c + 32 else c) s"

definition ascii_digit :: "nat \<Rightarrow> bool" where
  "ascii_digit c = (48 \<le> c \<and> c \<le> 57)"

definition digits_value :: "ustr \<Rightarrow> nat" where
  "digits_value s = foldl (\<lambda>a c. 10 * a + (c - 48)) 0 s"

definition plain_nat :: "ustr \<Rightarrow> nat option" where
  "plain_nat s = (if s \<noteq> [] \<and> list_all ascii_digit s then Some (digits_value s) else None)"

definition plain_int :: "ustr \<Rightarrow> int option" where
  "plain_int s = map_option int (plain_nat s)"

definition plain_decimal :: "ustr \<Rightarrow> rat option" where
  "plain_decimal s =
     (case split_on 46 s of
        [a] \<Rightarrow> map_option of_nat (plain_nat a)
      | [a, b] \<Rightarrow>
          (case (plain_nat a, plain_nat b) of
             (Some x, Some y) \<Rightarrow> Some (of_nat x + of_nat y / 10 ^ length b)
           | _ \<Rightarrow> None)
      | _ \<Rightarrow> None)"

definition ascii_rt :: pyrt where
  "ascii_rt = \<lparr> py_lower = ascii_lower, re_digit = ascii_digit, py_isnumeric = ascii_digit,
      py_Decimal = plain_decimal, py_float = plain_decimal, py_int = plain_int \<rparr>"

section \<open>Properties of the text normalisation\<close>

subsection \<open>What the proofs need of the runtime and of cleaned text\<close>

text \<open>
  Three facts about the Unicode tables of the runtime: lower-casing leaves a string of
  kept characters (Arabic block, whitespace, digits, \<open>a\<close> to \<open>z\<close>) unchanged; it brings
  in no character of the Arabic block and no punctuation character that was not
  there; no decimal digit is a punctuation character.
\<close>

fun single_spaced :: "ustr \<Rightarrow> bool" where
  "single_spaced [] = True"
| "single_spaced (c # cs) =
     ((is_space c \<longrightarrow> c = 32 \<and> (cs = [] \<or> \<not> is_space (hd cs))) \<and> single_spaced cs)"

definition trimmed :: "ustr \<Rightarrow> bool" where
  "trimmed s = (s = [] \<or> (\<not> is_space (hd s) \<and> \<not> is_space (last s)))"

definition wordlike :: "ustr \<Rightarrow> bool" where
  "wordlike w = (w \<noteq> [] \<and> (\<forall>c\<in>set w. \<not> is_space c))"

definition unicode_tables :: "pyrt \<Rightarrow> bool" where
  "unicode_tables rt =
     ((\<forall>s. (\<forall>c\<in>set s. kept_char rt c) \<longrightarrow> py_lower rt s = s)
    \<and> (\<forall>s c. c \<in> set (py_lower rt s)
           \<and> ((1536 \<le> c \<and> c \<le> 1791) \<or> c \<in> set all_punctuations) \<longrightarrow> c \<in> set s)
    \<and> (\<forall>c. re_digit rt c \<longrightarrow> c \<notin> set all_punctuations))"

definition good_char :: "pyrt \<Rightarrow> nat \<Rightarrow> bool" where
  "good_char rt c = (kept_char rt c \<and> \<not> is_diacritic c \<and> c \<notin> set all_punctuations)"

text \<open>A segment whose id carries the recording id \<open>rid\<close> and a counter that is at least
  \<open>idx\<close> (and, when \<open>one\<close> holds, a speaker tag of one character).\<close>

definition counted_from :: "ustr \<Rightarrow> bool \<Rightarrow> nat \<Rightarrow> segment \<Rightarrow> bool" where
  "counted_from rid one idx seg =
     (\<exists>k spk. idx \<le> k \<and> (one \<longrightarrow> length spk = 1) \<and> seg_id seg = callhome_id rid spk k)"

subsection \<open>The stages on their own\<close>

lemma str_replace_char_space:
  "str_replace [p] [32] t = map (\<lambda>c. if c = p then 32 else c) t"
  by (induction t) auto

lemma str_replace_char_del:
  "str_replace [p] [] t = filter (\<lambda>c. c \<noteq> p) t"
  by (induction t) auto

lemma map_subst_absent: "p \<notin> set t \<Longrightarrow> map (\<lambda>c. if c = p then q else c) t = t"
  by (induction t) auto

lemma filter_absent: "p \<notin> set t \<Longrightarrow> filter (\<lambda>c. c \<noteq> p) t = t"
  by (induction t) auto

lemma remove_punctuations_with_map:
  "remove_punctuations_with [32] ps t = map (\<lambda>c. if c \<in> set ps then 32 else c) t"
proof (induction ps arbitrary: t)
  case Nil
  show ?case by (simp add: remove_punctuations_with_def)
next
  case (Cons p ps)
  have step: "(if p \<in> set t then str_replace [p] [32] t else t)
      = map (\<lambda>c. if c = p then 32 else c) t"
    by (simp add: str_replace_char_space map_subst_absent)
  have "remove_punctuations_with [32] (p # ps) t
      = remove_punctuations_with [32] ps (map (\<lambda>c. if c = p then 32 else c) t)"
    unfolding remove_punctuations_with_def fold_simps step ..
  also have "\<dots> = map (\<lambda>c. if c \<in> set ps then 32 else c) (map (\<lambda>c. if c = p then 32 else c) t)"
    by (rule Cons.IH)
  also have "\<dots> = map (\<lambda>c. if c \<in> set (p # ps) then 32 else c) t"
    by auto
  finally show ?case .
qed

lemma remove_punctuations_with_filter:
  "remove_punctuations_with [] ps t = filter (\<lambda>c. c \<notin> set ps) t"
proof (induction ps arbitrary: t)
  case Nil
  show ?case by (simp add: remove_punctuations_with_def)
next
  case (Cons p ps)
  have step: "(if p \<in> set t then str_replace [p] [] t else t) = filter (\<lambda>c. c \<noteq> p) t"
    by (simp add: str_replace_char_del filter_absent)
  have "remove_punctuations_with [] (p # ps) t
      = remove_punctuations_with [] ps (filter (\<lambda>c. c \<noteq> p) t)"
    unfolding remove_punctuations_with_def fold_simps step ..
  also have "\<dots> = filter (\<lambda>c. c \<notin> set ps) (filter (\<lambda>c. c \<noteq> p) t)"
    by (rule Cons.IH)
  also have "\<dots> = filter (\<lambda>c. c \<notin> set (p # ps)) t"
    by (auto intro: filter_cong)
  finally show ?case .
qed

lemma starts_with_subset: "starts_with w t \<Longrightarrow> set w \<subseteq> set t"
  by (induction w t rule: starts_with.induct) auto

lemma str_in_subset: "str_in w t \<Longrightarrow> set w \<subseteq> set t"
proof (induction t)
  case Nil
  then show ?case by simp
next
  case (Cons a t)
  show ?case
  proof (cases "starts_with w (a # t)")
    case True
    then show ?thesis by (rule starts_with_subset)
  next
    case False
    with Cons show ?thesis by auto
  qed
qed

lemma remove_special_words_absent:
  "\<forall>w\<in>set ws. \<exists>c\<in>set w. c \<notin> set t \<Longrightarrow> remove_special_words_with ws t = t"
proof (induction ws)
  case Nil
  show ?case by (simp add: remove_special_words_with_def)
next
  case (Cons w ws)
  from Cons.prems have "\<not> str_in w t"
    using str_in_subset [of w t] by auto
  moreover have "remove_special_words_with ws t = t"
    using Cons by simp
  ultimately show ?case
    by (simp add: remove_special_words_with_def)
qed

lemma sub_ws_dot_ws_no_dot: "46 \<notin> set s \<Longrightarrow> sub_ws_dot_ws s = s"
proof (induction s rule: sub_ws_dot_ws.induct)
  case 1
  show ?case by simp
next
  case (2 c cs)
  have nodot: "46 \<notin> set cs" using "2.prems" by simp
  have hd_nodot: "d \<noteq> 46" if "dropWhile is_space cs = d # r" for d r
  proof -
    have "d \<in> set cs"
      using set_dropWhileD [of d is_space cs] that by simp
    with nodot show ?thesis by auto
  qed
  have rec: "sub_ws_dot_ws cs = cs"
  proof (cases "is_space c")
    case True
    show ?thesis
    proof (cases "dropWhile is_space cs")
      case Nil
      show ?thesis using True "2.IH"(1) nodot by (simp add: Nil)
    next
      case (Cons d r)
      show ?thesis using True "2.IH"(3) nodot hd_nodot [OF Cons] by (simp add: Cons)
    qed
  next
    case False
    with "2.IH"(4) nodot show ?thesis by simp
  qed
  show ?case
  proof (cases "dropWhile is_space cs")
    case Nil
    show ?thesis using rec by (simp add: Nil)
  next
    case (Cons d r)
    show ?thesis using rec hd_nodot [OF Cons] by (simp add: Cons)
  qed
qed

lemma dropWhile_hd_not: "dropWhile P s = d # r \<Longrightarrow> \<not> P d"
  using hd_dropWhile [of P s] by auto

lemma collapse_ws_hd: "\<not> is_space d \<Longrightarrow> collapse_ws (d # r) = d # collapse_ws r"
  by simp

lemma single_spaced_collapse_ws: "single_spaced (collapse_ws s)"
proof (induction s rule: collapse_ws.induct)
  case 1
  show ?case by simp
next
  case (2 c cs)
  show ?case
  proof (cases "is_space c")
    case False
    with "2.IH"(2) show ?thesis by simp
  next
    case True
    show ?thesis
    proof (cases "dropWhile is_space cs")
      case Nil
      show ?thesis using True by (simp add: Nil)
    next
      case (Cons d r)
      have "\<not> is_space d" using Cons by (rule dropWhile_hd_not)
      then show ?thesis using True "2.IH"(1) by (simp add: Cons)
    qed
  qed
qed

lemma collapse_ws_fixed: "single_spaced s \<Longrightarrow> collapse_ws s = s"
proof (induction s)
  case Nil
  show ?case by simp
next
  case (Cons c cs)
  then have rec: "collapse_ws cs = cs" by simp
  show ?case
  proof (cases "is_space c")
    case False
    with rec show ?thesis by simp
  next
    case True
    with Cons.prems have c: "c = 32" and nxt: "cs = [] \<or> \<not> is_space (hd cs)" by auto
    from nxt have "dropWhile is_space cs = cs" by (cases cs) auto
    with True c rec show ?thesis by simp
  qed
qed

lemma single_spaced_append: "single_spaced (a @ b) \<Longrightarrow> single_spaced a \<and> single_spaced b"
proof (induction a)
  case Nil
  then show ?case by simp
next
  case (Cons c a)
  then show ?case by (cases a) auto
qed

lemma py_strip_infix: "\<exists>a b. s = a @ py_strip s @ b"
proof -
  let ?y = "dropWhile is_space s"
  let ?z = "dropWhile is_space (rev ?y)"
  have "rev (takeWhile is_space (rev ?y) @ ?z) = rev (rev ?y)"
    by (simp only: takeWhile_dropWhile_id)
  then have "?y = rev ?z @ rev (takeWhile is_space (rev ?y))"
    by (simp only: rev_append rev_rev_ident)
  moreover have "s = takeWhile is_space s @ ?y" by simp
  ultimately have "s = takeWhile is_space s @ py_strip s @ rev (takeWhile is_space (rev ?y))"
    by (simp add: py_strip_def)
  then show ?thesis by blast
qed

lemma single_spaced_py_strip: "single_spaced s \<Longrightarrow> single_spaced (py_strip s)"
proof -
  assume a: "single_spaced s"
  obtain x y where "s = x @ py_strip s @ y" using py_strip_infix by blast
  with a have "single_spaced (x @ py_strip s @ y)" by simp
  then show ?thesis using single_spaced_append by blast
qed

lemma set_py_strip: "set (py_strip s) \<subseteq> set s"
proof -
  obtain x y where "s = x @ py_strip s @ y" using py_strip_infix by blast
  then have "set s = set x \<union> set (py_strip s) \<union> set y"
    by (metis set_append sup_assoc)
  then show ?thesis by auto
qed

lemma trimmed_py_strip: "trimmed (py_strip s)"
proof -
  let ?y = "dropWhile is_space s"
  let ?z = "dropWhile is_space (rev ?y)"
  show ?thesis
  proof (cases "?z = []")
    case True
    then show ?thesis by (simp add: trimmed_def py_strip_def)
  next
    case False
    then obtain d r where z: "?z = d # r" by (cases ?z) auto
    then have d: "\<not> is_space d" by (rule dropWhile_hd_not)
    have "?z = []" if "?y = []"
      unfolding that by simp
    with False have ynil: "?y \<noteq> []" by blast
    then obtain e q where y: "?y = e # q" by (cases ?y) auto
    then have e: "\<not> is_space e" by (rule dropWhile_hd_not)
    have "rev ?y = takeWhile is_space (rev ?y) @ ?z" by simp
    then have "last (rev ?y) = last ?z" using False
      by (metis last_appendR)
    then have "last ?z = e" using y by (simp add: last_rev)
    moreover have "hd (rev ?z) = last ?z" using False by (simp add: hd_rev)
    moreover have "last (rev ?z) = hd ?z" using False by (simp add: last_rev)
    ultimately show ?thesis using z d e False
      by (simp add: trimmed_def py_strip_def)
  qed
qed

lemma py_strip_fixed: "trimmed s \<Longrightarrow> py_strip s = s"
proof (cases "s = []")
  case True
  then show ?thesis by (simp add: py_strip_def)
next
  case False
  assume "trimmed s"
  with False have h: "\<not> is_space (hd s)" and l: "\<not> is_space (last s)"
    by (auto simp: trimmed_def)
  from h False have a: "dropWhile is_space s = s" by (cases s) auto
  from l False have "\<not> is_space (hd (rev s))" by (simp add: hd_rev)
  with False have "dropWhile is_space (rev s) = rev s" by (cases "rev s") auto
  with a show ?thesis by (simp add: py_strip_def)
qed

lemma set_collapse_ws: "set (collapse_ws s) \<subseteq> insert 32 (set s)"
proof (induction s rule: collapse_ws.induct)
  case 1
  show ?case by simp
next
  case (2 c cs)
  show ?case
  proof (cases "is_space c")
    case False
    with "2.IH"(2) show ?thesis by auto
  next
    case True
    have "set (dropWhile is_space cs) \<subseteq> set cs"
      by (auto dest: set_dropWhileD)
    with True "2.IH"(1) show ?thesis by auto
  qed
qed

lemma punct_members:
  "32 \<notin> set all_punctuations" "46 \<in> set all_punctuations"
  "40 \<in> set all_punctuations" "37 \<in> set all_punctuations"
  "95 \<in> set all_punctuations" "124 \<in> set all_punctuations"
  by (simp_all add: all_punctuations_def arabic_punctuations_def english_punctuations_def)

lemma good_char_32: "good_char rt 32"
  by (simp add: good_char_def kept_char_def is_space_def is_diacritic_def punct_members)

lemma diacritic_arabic: "is_diacritic c \<Longrightarrow> 1536 \<le> c \<and> c \<le> 1791"
  by (auto simp: is_diacritic_def)

lemma eastern_cases:
  "eastern_to_western c \<noteq> None \<Longrightarrow> (1536 \<le> c \<and> c \<le> 1791) \<or> c \<in> set all_punctuations"
proof -
  assume a: "eastern_to_western c \<noteq> None"
  have "(1632 \<le> c \<and> c \<le> 1641) \<or> c = 1642 \<or> c = 95 \<or> c = 1700 \<or> c = 124"
  proof (rule ccontr)
    assume "\<not> ?thesis"
    then have "eastern_to_western c = None" by (simp add: eastern_to_western_def)
    with a show False by simp
  qed
  then show ?thesis using punct_members(5,6) by auto
qed

lemma words_have_punct:
  "\<forall>w\<in>set words_to_remove_gulf. \<exists>c\<in>set w. c \<in> set all_punctuations"
  "\<forall>w\<in>set words_to_remove_levant. \<exists>c\<in>set w. c \<in> set all_punctuations"
proof -
  have "\<forall>w\<in>set words_to_remove_gulf. 40 \<in> set w"
    by (simp add: words_to_remove_gulf_def)
  then show "\<forall>w\<in>set words_to_remove_gulf. \<exists>c\<in>set w. c \<in> set all_punctuations"
    using punct_members(3) by blast
  have "\<forall>w\<in>set words_to_remove_levant. 37 \<in> set w \<or> 40 \<in> set w"
    by (simp add: words_to_remove_levant_def)
  then show "\<forall>w\<in>set words_to_remove_levant. \<exists>c\<in>set w. c \<in> set all_punctuations"
    using punct_members(3,4) by blast
qed

lemma kept_not_37:
  assumes "unicode_tables rt" shows "\<not> kept_char rt 37"
proof -
  have "re_digit rt 37 \<longrightarrow> 37 \<notin> set all_punctuations"
    using assms unfolding unicode_tables_def by blast
  then have "\<not> re_digit rt 37" using punct_members(4) by blast
  then show ?thesis by (simp add: kept_char_def is_space_def)
qed

lemma good_after_filter:
  assumes ok: "unicode_tables rt"
    and x: "\<forall>c\<in>set x. \<not> is_diacritic c \<and> (c \<in> set all_punctuations \<longrightarrow> c = 37)"
  shows "\<forall>c\<in>set (remove_non_alphanumeric rt x). good_char rt c"
proof
  fix c assume "c \<in> set (remove_non_alphanumeric rt x)"
  then have mem: "c \<in> set (py_lower rt x)" and kept: "kept_char rt c"
    by (auto simp: remove_non_alphanumeric_def)
  have origin: "c \<in> set x" if "(1536 \<le> c \<and> c \<le> 1791) \<or> c \<in> set all_punctuations"
    using ok mem that unfolding unicode_tables_def by blast
  have "\<not> is_diacritic c"
    using origin diacritic_arabic x by blast
  moreover have "c \<notin> set all_punctuations"
  proof
    assume p: "c \<in> set all_punctuations"
    then have "c \<in> set x" using origin by blast
    with x p have "c = 37" by blast
    with kept kept_not_37 [OF ok] show False by simp
  qed
  ultimately show "good_char rt c" using kept by (simp add: good_char_def)
qed

lemma eastern_after_filter:
  assumes ok: "unicode_tables rt"
    and x: "\<forall>c\<in>set x. eastern_to_western c = None"
  shows "\<forall>c\<in>set (remove_non_alphanumeric rt x). eastern_to_western c = None"
proof
  fix c assume "c \<in> set (remove_non_alphanumeric rt x)"
  then have mem: "c \<in> set (py_lower rt x)"
    by (auto simp: remove_non_alphanumeric_def)
  show "eastern_to_western c = None"
  proof (rule ccontr)
    assume ne: "eastern_to_western c \<noteq> None"
    then have "(1536 \<le> c \<and> c \<le> 1791) \<or> c \<in> set all_punctuations"
      by (rule eastern_cases)
    then have "c \<in> set x"
      using ok mem unfolding unicode_tables_def by blast
    with x ne show False by auto
  qed
qed

lemma good_tail:
  assumes g: "\<forall>c\<in>set x. good_char rt c"
  shows "\<forall>c\<in>set (py_strip (remove_extra_space x)). good_char rt c"
    and "single_spaced (py_strip (remove_extra_space x))"
    and "trimmed (py_strip (remove_extra_space x))"
    and "remove_extra_space x = collapse_ws x"
proof -
  have gc: "\<forall>c\<in>set (collapse_ws x). good_char rt c"
    using set_collapse_ws [of x] g good_char_32 [of rt] by auto
  then have "46 \<notin> set (collapse_ws x)"
    using punct_members(2) by (auto simp: good_char_def)
  then show re: "remove_extra_space x = collapse_ws x"
    by (simp add: remove_extra_space_def sub_ws_dot_ws_no_dot)
  show "\<forall>c\<in>set (py_strip (remove_extra_space x)). good_char rt c"
    using gc set_py_strip [of "collapse_ws x"] unfolding re by blast
  show "single_spaced (py_strip (remove_extra_space x))"
    unfolding re by (rule single_spaced_py_strip) (rule single_spaced_collapse_ws)
  show "trimmed (py_strip (remove_extra_space x))"
    by (rule trimmed_py_strip)
qed

lemma filter_all: "\<forall>c\<in>set t. P c \<Longrightarrow> filter P t = t"
  by (induction t) auto

lemma map_all: "\<forall>c\<in>set t. f c = c \<Longrightarrow> map f t = t"
  by (induction t) auto

lemma good_stages_fixed:
  assumes ok: "unicode_tables rt" and g: "\<forall>c\<in>set t. good_char rt c"
  shows "remove_diacritics t = t" "remove_punctuations t = t" "remove_punctuations_iraqi t = t"
    "remove_non_alphanumeric rt t = t"
proof -
  show "remove_diacritics t = t"
    using g by (simp add: remove_diacritics_def good_char_def filter_all)
  show "remove_punctuations t = t"
    using g by (simp add: remove_punctuations_def remove_punctuations_with_map good_char_def map_all)
  show "remove_punctuations_iraqi t = t"
    using g by (simp add: remove_punctuations_iraqi_def remove_punctuations_with_filter
        good_char_def filter_all)
  have k: "\<forall>c\<in>set t. kept_char rt c" using g by (simp add: good_char_def)
  then have "py_lower rt t = t" using ok unfolding unicode_tables_def by blast
  then show "remove_non_alphanumeric rt t = t"
    using k by (simp add: remove_non_alphanumeric_def filter_all)
qed

lemma east_to_west_fixed:
  "\<forall>c\<in>set t. eastern_to_western c = None \<Longrightarrow> east_to_west_num t = t"
  by (simp add: east_to_west_num_def map_all)

lemma special_words_fixed:
  assumes g: "\<forall>c\<in>set t. good_char rt c"
    and ws: "\<forall>w\<in>set ws. \<exists>c\<in>set w. c \<in> set all_punctuations"
  shows "remove_special_words_with ws t = t"
proof (rule remove_special_words_absent)
  show "\<forall>w\<in>set ws. \<exists>c\<in>set w. c \<notin> set t"
  proof
    fix w assume "w \<in> set ws"
    with ws obtain c where c: "c \<in> set w" "c \<in> set all_punctuations" by blast
    with g have "c \<notin> set t" by (auto simp: good_char_def)
    with c show "\<exists>c\<in>set w. c \<notin> set t" by blast
  qed
qed

lemma clean_text_fixed:
  assumes ok: "unicode_tables rt" and g: "\<forall>c\<in>set t. good_char rt c"
    and ss: "single_spaced t" and tr: "trimmed t"
  shows "py_strip (remove_extra_space t) = t"
proof -
  have "46 \<notin> set t" using g punct_members(2) by (auto simp: good_char_def)
  then show ?thesis
    using ss tr by (simp add: remove_extra_space_def collapse_ws_fixed sub_ws_dot_ws_no_dot
        py_strip_fixed)
qed

lemma set_remove_punctuations:
  "c \<in> set (remove_punctuations x) \<Longrightarrow>
     c \<notin> set all_punctuations \<and> (c = 32 \<or> c \<in> set x)"
proof -
  assume "c \<in> set (remove_punctuations x)"
  then have "c \<in> (\<lambda>d. if d \<in> set all_punctuations then 32 else d) ` set x"
    unfolding remove_punctuations_def remove_punctuations_with_map by simp
  then obtain d where d: "d \<in> set x" "c = (if d \<in> set all_punctuations then 32 else d)"
    by blast
  then show ?thesis
    using punct_members(1) by (cases "d \<in> set all_punctuations") simp_all
qed

lemma after_punct_space:
  "\<forall>c\<in>set (remove_punctuations x). c \<notin> set all_punctuations"
  using set_remove_punctuations by blast

lemma after_punct_iraqi:
  "\<forall>c\<in>set (remove_punctuations_iraqi x). c \<notin> set all_punctuations"
  unfolding remove_punctuations_iraqi_def remove_punctuations_with_filter by simp

lemma punct_keeps_no_diacritic:
  assumes "\<forall>c\<in>set x. \<not> is_diacritic c"
  shows "\<forall>c\<in>set (remove_punctuations x). \<not> is_diacritic c"
    and "\<forall>c\<in>set (remove_punctuations_iraqi x). \<not> is_diacritic c"
proof -
  have "\<not> is_diacritic 32" by (simp add: is_diacritic_def)
  then show "\<forall>c\<in>set (remove_punctuations x). \<not> is_diacritic c"
    using assms unfolding remove_punctuations_def remove_punctuations_with_map by auto
  show "\<forall>c\<in>set (remove_punctuations_iraqi x). \<not> is_diacritic c"
    using assms unfolding remove_punctuations_iraqi_def remove_punctuations_with_filter by simp
qed

lemma no_diacritic_after: "\<forall>c\<in>set (remove_diacritics x). \<not> is_diacritic c"
  by (simp add: remove_diacritics_def)

subsection \<open>Gulf, Iraqi and Levantine\<close>

lemma callhome_pass:
  assumes ok: "unicode_tables rt"
    and ws: "\<forall>w\<in>set ws. \<exists>c\<in>set w. c \<in> set all_punctuations"
    and pu: "\<And>x. \<forall>c\<in>set (punct x). c \<notin> set all_punctuations"
    and pd: "\<And>x. \<forall>c\<in>set x. \<not> is_diacritic c \<Longrightarrow> \<forall>c\<in>set (punct x). \<not> is_diacritic c"
    and pf: "\<And>t. \<forall>c\<in>set t. good_char rt c \<Longrightarrow> punct t = t"
    and cl: "\<And>s. clean s = py_strip (remove_extra_space (remove_non_alphanumeric rt
      (punct (remove_diacritics (remove_special_words_with ws s)))))"
  shows "clean (clean s) = clean s"
proof -
  let ?x3 = "punct (remove_diacritics (remove_special_words_with ws s))"
  let ?x5 = "remove_non_alphanumeric rt ?x3"
  let ?t = "clean s"
  have nd: "\<forall>c\<in>set ?x3. \<not> is_diacritic c"
    by (rule pd) (rule no_diacritic_after)
  have "\<forall>c\<in>set ?x3. \<not> is_diacritic c \<and> (c \<in> set all_punctuations \<longrightarrow> c = 37)"
    using nd pu by blast
  then have g5: "\<forall>c\<in>set ?x5. good_char rt c"
    by (rule good_after_filter [OF ok])
  have t: "?t = py_strip (remove_extra_space ?x5)" by (rule cl)
  have g: "\<forall>c\<in>set ?t. good_char rt c" and ss: "single_spaced ?t" and tr: "trimmed ?t"
    unfolding t using good_tail [OF g5] by blast+
  have "clean ?t = py_strip (remove_extra_space (remove_non_alphanumeric rt
      (punct (remove_diacritics (remove_special_words_with ws ?t)))))"
    by (rule cl)
  also have "remove_special_words_with ws ?t = ?t"
    using g ws by (rule special_words_fixed)
  also have "remove_diacritics ?t = ?t"
    using ok g by (rule good_stages_fixed)
  also have "punct ?t = ?t"
    using g by (rule pf)
  also have "remove_non_alphanumeric rt ?t = ?t"
    using ok g by (rule good_stages_fixed)
  also have "py_strip (remove_extra_space ?t) = ?t"
    using ok g ss tr by (rule clean_text_fixed)
  finally show ?thesis .
qed

lemma cleaning_gulf_idem:
  assumes ok: "unicode_tables rt"
  shows "cleaning_gulf rt (cleaning_gulf rt s) = cleaning_gulf rt s"
proof (rule callhome_pass [OF ok words_have_punct(1), where punct = remove_punctuations])
  show "\<forall>c\<in>set (remove_punctuations x). c \<notin> set all_punctuations" for x
    by (rule after_punct_space)
  show "\<forall>c\<in>set (remove_punctuations x). \<not> is_diacritic c"
    if "\<forall>c\<in>set x. \<not> is_diacritic c" for x
    using that by (rule punct_keeps_no_diacritic)
  show "remove_punctuations t = t" if "\<forall>c\<in>set t. good_char rt c" for t
    using ok that by (rule good_stages_fixed)
  show "cleaning_gulf rt s = py_strip (remove_extra_space (remove_non_alphanumeric rt
      (remove_punctuations (remove_diacritics
        (remove_special_words_with words_to_remove_gulf s)))))" for s
    by (simp add: cleaning_gulf_def)
qed

lemma cleaning_levant_idem:
  assumes ok: "unicode_tables rt"
  shows "cleaning_levant rt (cleaning_levant rt s) = cleaning_levant rt s"
proof (rule callhome_pass [OF ok words_have_punct(2), where punct = remove_punctuations])
  show "\<forall>c\<in>set (remove_punctuations x). c \<notin> set all_punctuations" for x
    by (rule after_punct_space)
  show "\<forall>c\<in>set (remove_punctuations x). \<not> is_diacritic c"
    if "\<forall>c\<in>set x. \<not> is_diacritic c" for x
    using that by (rule punct_keeps_no_diacritic)
  show "remove_punctuations t = t" if "\<forall>c\<in>set t. good_char rt c" for t
    using ok that by (rule good_stages_fixed)
  show "cleaning_levant rt s = py_strip (remove_extra_space (remove_non_alphanumeric rt
      (remove_punctuations (remove_diacritics
        (remove_special_words_with words_to_remove_levant s)))))" for s
    by (simp add: cleaning_levant_def)
qed

lemma cleaning_iraqi_idem:
  assumes ok: "unicode_tables rt"
  shows "cleaning_iraqi rt (cleaning_iraqi rt s) = cleaning_iraqi rt s"
proof (rule callhome_pass [OF ok words_have_punct(1), where punct = remove_punctuations_iraqi])
  show "\<forall>c\<in>set (remove_punctuations_iraqi x). c \<notin> set all_punctuations" for x
    by (rule after_punct_iraqi)
  show "\<forall>c\<in>set (remove_punctuations_iraqi x). \<not> is_diacritic c"
    if "\<forall>c\<in>set x. \<not> is_diacritic c" for x
    using that by (rule punct_keeps_no_diacritic)
  show "remove_punctuations_iraqi t = t" if "\<forall>c\<in>set t. good_char rt c" for t
    using ok that by (rule good_stages_fixed)
  show "cleaning_iraqi rt s = py_strip (remove_extra_space (remove_non_alphanumeric rt
      (remove_punctuations_iraqi (remove_diacritics
        (remove_special_words_with words_to_remove_gulf s)))))" for s
    by (simp add: cleaning_iraqi_def)
qed

subsection \<open>QASR\<close>

lemma py_split_Nil: "py_split [] = []"
  by (simp add: py_split.simps)

lemma py_split_skip: "py_split (dropWhile is_space s) = py_split s"
  by (subst py_split.simps, subst (2) py_split.simps) simp

lemma py_split_space: "is_space c \<Longrightarrow> py_split (c # s) = py_split s"
proof -
  assume "is_space c"
  then have "dropWhile is_space (c # s) = dropWhile is_space s" by simp
  then have "py_split (dropWhile is_space (c # s)) = py_split (dropWhile is_space s)"
    by simp
  then show ?thesis by (simp only: py_split_skip)
qed

lemma py_split_word:
  assumes c: "\<not> is_space c" and cs: "\<forall>x\<in>set cs. \<not> is_space x"
    and rest: "rest = [] \<or> is_space (hd rest)"
  shows "py_split (c # cs @ rest) = (c # cs) # py_split rest"
proof -
  have a: "dropWhile is_space (c # cs @ rest) = c # cs @ rest" using c by simp
  have d: "dropWhile (\<lambda>x. \<not> is_space x) rest = rest"
    using rest by (cases rest) auto
  have t: "takeWhile (\<lambda>x. \<not> is_space x) rest = []"
    using rest by (cases rest) auto
  have "dropWhile (\<lambda>x. \<not> is_space x) (cs @ rest) = rest"
    using cs d by (simp add: dropWhile_append)
  moreover have "takeWhile (\<lambda>x. \<not> is_space x) (cs @ rest) = cs"
    using cs t by (simp add: takeWhile_append)
  ultimately show ?thesis
    using c by (subst py_split.simps) simp
qed

lemma py_split_words:
  "w \<in> set (py_split s) \<Longrightarrow> wordlike w \<and> set w \<subseteq> set s"
proof (induction s arbitrary: w rule: py_split.induct)
  case (1 s)
  show ?case
  proof (cases "dropWhile is_space s")
    case Nil
    with "1.prems" show ?thesis by (subst (asm) py_split.simps) (simp add: Nil)
  next
    case (Cons c cs)
    let ?tl = "dropWhile (\<lambda>x. \<not> is_space x) cs"
    have c: "\<not> is_space c" using Cons by (rule dropWhile_hd_not)
    have sub: "set (c # cs) \<subseteq> set s"
      using set_dropWhileD [of _ is_space s] Cons by (metis subsetI)
    have "py_split s = (c # takeWhile (\<lambda>x. \<not> is_space x) cs) # py_split ?tl"
      by (subst py_split.simps) (simp add: Cons)
    with "1.prems" consider "w = c # takeWhile (\<lambda>x. \<not> is_space x) cs" | "w \<in> set (py_split ?tl)"
      by auto
    then show ?thesis
    proof cases
      case 1
      have "set (takeWhile (\<lambda>x. \<not> is_space x) cs) \<subseteq> set cs"
        by (auto dest: set_takeWhileD)
      moreover have "\<forall>x\<in>set (takeWhile (\<lambda>x. \<not> is_space x) cs). \<not> is_space x"
        by (auto dest: set_takeWhileD)
      ultimately show ?thesis using 1 c sub by (auto simp: wordlike_def)
    next
      case 2
      then have "wordlike w \<and> set w \<subseteq> set ?tl"
        using "1.IH" [OF Cons] by blast
      moreover have "set ?tl \<subseteq> set cs"
        by (auto dest: set_dropWhileD)
      ultimately show ?thesis using sub by auto
    qed
  qed
qed

lemma hd_py_join: "v \<noteq> [] \<Longrightarrow> hd (py_join sep (v # ws)) = hd v"
  by (cases ws) auto

lemma py_join_Nil_iff: "v \<noteq> [] \<Longrightarrow> py_join sep (v # ws) \<noteq> []"
  by (cases ws) auto

lemma py_split_join:
  "\<forall>w\<in>set W. wordlike w \<Longrightarrow> py_split (py_join [32] W) = W"
proof (induction W rule: induct_list012)
  case 1
  show ?case by (simp add: py_split_Nil)
next
  case (2 w)
  then obtain c cs where w: "w = c # cs" and c: "\<not> is_space c"
    and cs: "\<forall>x\<in>set cs. \<not> is_space x"
    by (cases w) (auto simp: wordlike_def)
  have "py_split (c # cs @ []) = (c # cs) # py_split []"
    using c cs by (rule py_split_word) simp
  then show ?case by (simp add: w py_split_Nil)
next
  case (3 w v ws)
  then obtain c cs where w: "w = c # cs" and c: "\<not> is_space c"
    and cs: "\<forall>x\<in>set cs. \<not> is_space x"
    by (cases w) (auto simp: wordlike_def)
  let ?J = "py_join [32] (v # ws)"
  have sp: "is_space 32" by (simp add: is_space_def)
  have "py_split (c # cs @ 32 # ?J) = (c # cs) # py_split (32 # ?J)"
    using c cs by (rule py_split_word) (simp add: sp)
  also have "py_split (32 # ?J) = py_split ?J"
    using sp by (rule py_split_space)
  also have "py_split ?J = v # ws"
    using 3 by simp
  finally show ?case by (simp add: w)
qed

lemma single_spaced_word: "\<forall>c\<in>set w. \<not> is_space c \<Longrightarrow> single_spaced (w @ r) = single_spaced r"
  by (induction w) auto

lemma single_spaced_join:
  "\<forall>w\<in>set W. wordlike w \<Longrightarrow> single_spaced (py_join [32] W)"
proof (induction W rule: induct_list012)
  case 1
  show ?case by simp
next
  case (2 w)
  then have "single_spaced (w @ []) = single_spaced []"
    by (intro single_spaced_word) (simp add: wordlike_def)
  then show ?case by simp
next
  case (3 w v ws)
  let ?J = "py_join [32] (v # ws)"
  have v: "v \<noteq> []" "\<not> is_space (hd v)" using 3(3) by (auto simp: wordlike_def)
  have "single_spaced (w @ 32 # ?J) = single_spaced (32 # ?J)"
    using 3(3) by (intro single_spaced_word) (simp add: wordlike_def)
  moreover have "single_spaced ?J" using 3 by simp
  moreover have "\<not> is_space (hd ?J)" using v by (simp add: hd_py_join)
  ultimately show ?case by simp
qed

lemma set_py_join: "c \<in> set (py_join [32] W) \<Longrightarrow> c = 32 \<or> (\<exists>w\<in>set W. c \<in> set w)"
  by (induction W rule: induct_list012) auto

lemma punct_not_digit: "48 \<le> d \<and> d \<le> 57 \<Longrightarrow> d \<notin> set all_punctuations"
  by (auto simp: all_punctuations_def arabic_punctuations_def english_punctuations_def)

lemma punct_not_lower: "97 \<le> d \<and> d \<le> 122 \<Longrightarrow> d \<notin> set all_punctuations"
  by (auto simp: all_punctuations_def arabic_punctuations_def english_punctuations_def)

lemma punct_members2: "1601 \<notin> set all_punctuations"
  by (simp add: all_punctuations_def arabic_punctuations_def english_punctuations_def)

lemma eastern_image:
  assumes "eastern_to_western c = Some d"
  shows "eastern_to_western d = None \<and> (d \<in> set all_punctuations \<longrightarrow> d = 37)"
proof -
  have "(48 \<le> d \<and> d \<le> 57) \<or> d = 37 \<or> d = 32 \<or> d = 1601"
    using assms by (auto simp: eastern_to_western_def split: if_splits)
  then consider "48 \<le> d \<and> d \<le> 57" | "d = 37" | "d = 32" | "d = 1601" by blast
  then show ?thesis
  proof cases
    case 1
    then have "d \<notin> set all_punctuations" by (rule punct_not_digit)
    moreover have "eastern_to_western d = None"
      using 1 by (simp add: eastern_to_western_def)
    ultimately show ?thesis by simp
  next
    case 2
    then show ?thesis by (simp add: eastern_to_western_def)
  next
    case 3
    then show ?thesis using punct_members(1) by (simp add: eastern_to_western_def)
  next
    case 4
    then show ?thesis using punct_members2 by (simp add: eastern_to_western_def)
  qed
qed

lemma after_east_to_west:
  assumes "\<forall>c\<in>set x. c \<notin> set all_punctuations"
  shows "\<forall>c\<in>set (east_to_west_num x).
           eastern_to_western c = None \<and> (c \<in> set all_punctuations \<longrightarrow> c = 37)"
proof
  fix c assume "c \<in> set (east_to_west_num x)"
  then obtain b where b: "b \<in> set x"
      and c: "c = (case eastern_to_western b of None \<Rightarrow> b | Some d \<Rightarrow> d)"
    by (auto simp: east_to_west_num_def)
  show "eastern_to_western c = None \<and> (c \<in> set all_punctuations \<longrightarrow> c = 37)"
  proof (cases "eastern_to_western b")
    case None
    with b c assms show ?thesis by simp
  next
    case (Some d)
    with c eastern_image [OF Some] show ?thesis by simp
  qed
qed

lemma cleaning_qasr_idem:
  assumes ok: "unicode_tables rt"
  shows "cleaning_qasr rt (cleaning_qasr rt s) = cleaning_qasr rt s"
proof -
  let ?y2 = "east_to_west_num (remove_punctuations s)"
  let ?y3 = "remove_diacritics ?y2"
  let ?y5 = "remove_non_alphanumeric rt ?y3"
  let ?keep = "\<lambda>word. length word > 1 \<or> str_isnumeric rt word"
  let ?W = "filter ?keep (py_split ?y5)"
  let ?t = "py_join [32] ?W"
  have y2: "\<forall>c\<in>set ?y2. eastern_to_western c = None \<and> (c \<in> set all_punctuations \<longrightarrow> c = 37)"
    by (rule after_east_to_west) (rule after_punct_space)
  have y3: "\<forall>c\<in>set ?y3. \<not> is_diacritic c \<and> (c \<in> set all_punctuations \<longrightarrow> c = 37)"
    using y2 by (simp add: remove_diacritics_def)
  have y3e: "\<forall>c\<in>set ?y3. eastern_to_western c = None"
    using y2 by (simp add: remove_diacritics_def)
  have g5: "\<forall>c\<in>set ?y5. good_char rt c"
    using ok y3 by (rule good_after_filter)
  have e5: "\<forall>c\<in>set ?y5. eastern_to_western c = None"
    using ok y3e by (rule eastern_after_filter)
  have W: "\<forall>w\<in>set ?W. wordlike w \<and> set w \<subseteq> set ?y5"
    using py_split_words by auto
  then have Ww: "\<forall>w\<in>set ?W. wordlike w" by blast
  have gt: "\<forall>c\<in>set ?t. good_char rt c"
  proof
    fix c assume "c \<in> set ?t"
    then have "c = 32 \<or> (\<exists>w\<in>set ?W. c \<in> set w)" by (rule set_py_join)
    then show "good_char rt c" using W g5 good_char_32 [of rt] by blast
  qed
  have et: "\<forall>c\<in>set ?t. eastern_to_western c = None"
  proof
    fix c assume "c \<in> set ?t"
    then have "c = 32 \<or> (\<exists>w\<in>set ?W. c \<in> set w)" by (rule set_py_join)
    moreover have "eastern_to_western 32 = None" by (simp add: eastern_to_western_def)
    ultimately show "eastern_to_western c = None" using W e5 by blast
  qed
  have "46 \<notin> set ?t" using gt punct_members(2) by (auto simp: good_char_def)
  moreover have "single_spaced ?t" using Ww by (rule single_spaced_join)
  ultimately have res: "remove_extra_space ?t = ?t"
    by (simp add: remove_extra_space_def collapse_ws_fixed sub_ws_dot_ws_no_dot)
  have first: "cleaning_qasr rt s = ?t"
    unfolding cleaning_qasr_def remove_single_char_word_def by (rule res)
  have "cleaning_qasr rt ?t = remove_extra_space (remove_single_char_word rt
      (remove_non_alphanumeric rt (remove_diacritics (east_to_west_num
        (remove_punctuations ?t)))))"
    by (simp add: cleaning_qasr_def)
  also have "remove_punctuations ?t = ?t"
    using ok gt by (rule good_stages_fixed)
  also have "east_to_west_num ?t = ?t"
    using et by (rule east_to_west_fixed)
  also have "remove_diacritics ?t = ?t"
    using ok gt by (rule good_stages_fixed)
  also have "remove_non_alphanumeric rt ?t = ?t"
    using ok gt by (rule good_stages_fixed)
  also have "remove_single_char_word rt ?t = ?t"
    using py_split_join [OF Ww] by (simp add: remove_single_char_word_def)
  also note res
  finally show ?thesis unfolding first .
qed

lemma ascii_rt_tables: "unicode_tables ascii_rt"
proof -
  have l1: "py_lower ascii_rt s = s" if "\<forall>c\<in>set s. kept_char ascii_rt c" for s
  proof -
    have "\<forall>c\<in>set s. (if 65 \<le> c \<and> c \<le> 90 then c + 32 else c) = c"
    proof
      fix c assume "c \<in> set s"
      with that have "kept_char ascii_rt c" by blast
      then have "\<not> (65 \<le> c \<and> c \<le> 90)"
        by (auto simp: kept_char_def ascii_rt_def ascii_digit_def is_space_def)
      then show "(if 65 \<le> c \<and> c \<le> 90 then c + 32 else c) = c" by simp
    qed
    then show ?thesis by (simp add: ascii_rt_def ascii_lower_def map_all)
  qed
  have l2: "c \<in> set s"
    if "c \<in> set (py_lower ascii_rt s)"
      and "(1536 \<le> c \<and> c \<le> 1791) \<or> c \<in> set all_punctuations" for s c
  proof -
    from that(1) obtain d where d: "d \<in> set s"
        and c: "c = (if 65 \<le> d \<and> d \<le> 90 then d + 32 else d)"
      by (auto simp: ascii_rt_def ascii_lower_def)
    show ?thesis
    proof (cases "65 \<le> d \<and> d \<le> 90")
      case True
      with c have r: "97 \<le> c \<and> c \<le> 122" by simp
      then have "c \<notin> set all_punctuations" by (rule punct_not_lower)
      with r that(2) show ?thesis by simp
    next
      case False
      with c d show ?thesis by simp
    qed
  qed
  have l3: "c \<notin> set all_punctuations" if "re_digit ascii_rt c" for c
    using that punct_not_digit [of c] by (simp add: ascii_rt_def ascii_digit_def)
  show ?thesis
    unfolding unicode_tables_def using l1 l2 l3 by blast
qed

subsection \<open>Idempotence\<close>

text \<open>
  Claim C1. Cleaning is idempotent: for every string, cleaning the cleaned text again
  gives the same text, in each of the four pipelines (Gulf, Iraqi, Levantine, QASR),
  on a runtime whose Unicode tables have the three properties above.
\<close>

theorem cleaning_idempotent:
  assumes "unicode_tables rt"
  shows "cleaning_gulf rt (cleaning_gulf rt s) = cleaning_gulf rt s
       \<and> cleaning_iraqi rt (cleaning_iraqi rt s) = cleaning_iraqi rt s
       \<and> cleaning_levant rt (cleaning_levant rt s) = cleaning_levant rt s
       \<and> cleaning_qasr rt (cleaning_qasr rt s) = cleaning_qasr rt s"
  using assms cleaning_gulf_idem cleaning_iraqi_idem cleaning_levant_idem cleaning_qasr_idem
  by blast

theorem cleaning_idempotent_witness:
  "unicode_tables ascii_rt
   \<and> cleaning_gulf ascii_rt (cleaning_gulf ascii_rt [1571, 1614, 1604, 1608, 32, 40, 1590, 1580, 1577, 41, 32, 72, 105, 33])
       = cleaning_gulf ascii_rt [1571, 1614, 1604, 1608, 32, 40, 1590, 1580, 1577, 41, 32, 72, 105, 33]
   \<and> cleaning_qasr ascii_rt (cleaning_qasr ascii_rt [1571, 1614, 1604, 1608, 32, 40, 1590, 1580, 1577, 41, 32, 72, 105, 33])
       = cleaning_qasr ascii_rt [1571, 1614, 1604, 1608, 32, 40, 1590, 1580, 1577, 41, 32, 72, 105, 33]"
  using cleaning_idempotent [OF ascii_rt_tables,
      of "[1571, 1614, 1604, 1608, 32, 40, 1590, 1580, 1577, 41, 32, 72, 105, 33]"]
    ascii_rt_tables
  by blast

section \<open>Properties of the parsers\<close>

subsection \<open>Evaluation on examples\<close>

lemma replicate_numeral_unfold: "replicate (numeral v) x = x # replicate (numeral v - 1) x"
  by (simp add: numeral_eq_Suc)
lemmas string_eval = asc_def is_space_def py_strip_def py_split.simps py_split_max.simps
  str_nat.simps str_int_def pad_left_def zfill_def replicate_numeral_unfold
lemmas runtime_eval = ascii_rt_def ascii_lower_def ascii_digit_def digits_value_def
  plain_nat_def plain_int_def plain_decimal_def
lemmas cleaning_eval = remove_special_words_with_def remove_diacritics_def is_diacritic_def
  remove_punctuations_def remove_punctuations_iraqi_def remove_punctuations_with_def
  all_punctuations_def arabic_punctuations_def english_punctuations_def
  remove_non_alphanumeric_def kept_char_def remove_extra_space_def
  words_to_remove_gulf_def words_to_remove_levant_def cleaning_gulf_def cleaning_iraqi_def
  cleaning_levant_def east_to_west_num_def eastern_to_western_def str_isnumeric_def
  remove_single_char_word_def cleaning_qasr_def

subsection \<open>Numbers as strings\<close>

lemma str_nat_digits: "list_all ascii_digit (str_nat n)"
proof (induction n rule: str_nat.induct)
  case (1 n)
  show ?case
  proof (cases "n < 10")
    case True
    then show ?thesis by (subst str_nat.simps) (simp add: ascii_digit_def)
  next
    case False
    have "n mod 10 < 10" by simp
    then have "ascii_digit (48 + n mod 10)" unfolding ascii_digit_def by linarith
    with False "1.IH" show ?thesis by (subst str_nat.simps) simp
  qed
qed

lemma str_nat_not_Nil: "str_nat n \<noteq> []"
  by (subst str_nat.simps) simp

lemma digits_value_snoc: "digits_value (xs @ [c]) = 10 * digits_value xs + (c - 48)"
  by (simp add: digits_value_def)

lemma digits_value_str_nat: "digits_value (str_nat n) = n"
proof (induction n rule: str_nat.induct)
  case (1 n)
  show ?case
  proof (cases "n < 10")
    case True
    then show ?thesis by (subst str_nat.simps) (simp add: digits_value_def)
  next
    case False
    with "1.IH" have "digits_value (str_nat (n div 10)) = n div 10" by simp
    with False show ?thesis
      by (subst str_nat.simps) (simp add: digits_value_snoc)
  qed
qed

lemma foldl_zeros: "foldl (\<lambda>a c. 10 * a + (c - 48)) 0 (replicate k 48) = (0::nat)"
  by (induction k) simp_all

lemma digits_value_pad: "digits_value (pad_left 48 w s) = digits_value s"
  by (simp add: digits_value_def pad_left_def foldl_zeros)

lemma pad_str_nat_inj:
  "pad_left 48 w (str_nat m) = pad_left 48 w (str_nat n) \<Longrightarrow> m = n"
proof -
  assume "pad_left 48 w (str_nat m) = pad_left 48 w (str_nat n)"
  then have "digits_value (pad_left 48 w (str_nat m)) = digits_value (pad_left 48 w (str_nat n))"
    by simp
  then show ?thesis by (simp add: digits_value_pad digits_value_str_nat)
qed

lemma pad_str_nat_digits: "list_all ascii_digit (pad_left 48 w (str_nat n))"
  using str_nat_digits [of n] by (auto simp: pad_left_def ascii_digit_def list_all_iff)

lemma digits_no_sep: "list_all ascii_digit s \<Longrightarrow> 95 \<notin> set s \<and> 45 \<notin> set s"
  by (auto simp: list_all_iff ascii_digit_def)

lemma length_str_nat: "0 < k \<Longrightarrow> n < 10 ^ k \<Longrightarrow> length (str_nat n) \<le> k"
proof (induction k arbitrary: n)
  case 0
  then show ?case by simp
next
  case (Suc k)
  show ?case
  proof (cases "n < 10")
    case True
    then show ?thesis by (subst str_nat.simps) simp
  next
    case False
    with Suc.prems have k: "0 < k" by (cases k) auto
    from Suc.prems have "n div 10 < 10 ^ k"
      by (simp add: less_mult_imp_div_less mult.commute)
    with Suc.IH k have "length (str_nat (n div 10)) \<le> k" by blast
    with False show ?thesis by (subst str_nat.simps) simp
  qed
qed

lemma length_pad_left: "length (pad_left c w s) = max w (length s)"
  by (simp add: pad_left_def)

lemma str_int_inj: "str_int i = str_int j \<Longrightarrow> i = j"
proof -
  assume eq: "str_int i = str_int j"
  have hd_digit: "hd (str_nat n) \<noteq> 45" for n
    using str_nat_digits [of n] str_nat_not_Nil [of n]
    by (cases "str_nat n") (auto simp: ascii_digit_def)
  have nat_inj: "str_nat m = str_nat n \<Longrightarrow> m = n" for m n
    using digits_value_str_nat by metis
  show ?thesis
  proof (cases "i < 0")
    case True
    show ?thesis
    proof (cases "j < 0")
      case jn: True
      with True eq have "nat (- i) = nat (- j)" by (auto simp: str_int_def dest: nat_inj)
      with True jn show ?thesis by simp
    next
      case False
      with True eq have "hd (str_nat (nat j)) = 45" by (auto simp: str_int_def dest: sym)
      with hd_digit show ?thesis by blast
    qed
  next
    case False
    show ?thesis
    proof (cases "j < 0")
      case True
      with False eq have "hd (str_nat (nat i)) = 45" by (auto simp: str_int_def)
      with hd_digit show ?thesis by blast
    next
      case jn: False
      with False eq have "nat i = nat j" by (auto simp: str_int_def dest: nat_inj)
      with False jn show ?thesis by simp
    qed
  qed
qed

lemma str_int_no_sep: "95 \<notin> set (str_int i)"
  using digits_no_sep [OF str_nat_digits] by (simp add: str_int_def)

subsection \<open>The last component of an id\<close>

lemma first_sep_unique:
  "x \<notin> set xs \<Longrightarrow> x \<notin> set xs' \<Longrightarrow> xs @ x # ys = xs' @ x # ys'
     \<Longrightarrow> xs = xs' \<and> ys = ys'"
proof (induction xs arbitrary: xs')
  case Nil
  then show ?case by (cases xs') auto
next
  case (Cons a xs)
  then show ?case by (cases xs') auto
qed

lemma append_sep_unique:
  fixes a d :: ustr
  assumes "95 \<notin> set d" "95 \<notin> set d'" "a @ 95 # d = a' @ 95 # d'"
  shows "a = a' \<and> d = d'"
proof -
  from assms(3) have "rev (a @ 95 # d) = rev (a' @ 95 # d')" by simp
  then have "rev d @ 95 # rev a = rev d' @ 95 # rev a'" by simp
  moreover have "95 \<notin> set (rev d)" "95 \<notin> set (rev d')" using assms by simp_all
  ultimately have "rev d = rev d' \<and> rev a = rev a'"
    using first_sep_unique [of 95 "rev d" "rev d'" "rev a" "rev a'"] by blast
  then show ?thesis by simp
qed

subsection \<open>One line of a Gulf transcript\<close>

lemma gulf_line_skip:
  "py_strip raw = [] \<or> length (split_on 9 (py_strip raw)) < 4 \<Longrightarrow>
     gulf_line rt tc split stem idx raw = Inr None"
  by (simp add: gulf_line_def)

lemma split_on_not_Nil: "split_on c s \<noteq> []"
  by (induction s) (auto split: list.splits)

lemma split_on_Nil_length: "length (split_on c []) = 1"
  by simp

lemma gulf_line_four:
  assumes "split_on 9 (py_strip raw) = [time, spk0, text0, bw]"
  shows "gulf_line rt tc split stem idx raw = gulf_record rt tc split stem idx time spk0 text0"
proof -
  have "py_strip raw \<noteq> []" using assms by auto
  then show ?thesis using assms by (simp add: gulf_line_def)
qed

lemma gulf_line_many:
  assumes "4 < length (split_on 9 (py_strip raw))"
  shows "gulf_line rt tc split stem idx raw = Inl ValueError"
proof -
  have ne: "py_strip raw \<noteq> []" using assms by auto
  obtain a b c d e r where "split_on 9 (py_strip raw) = a # b # c # d # e # r"
    using assms by (auto simp: Suc_length_conv Suc_le_length_iff less_eq_Suc_le numeral_eq_Suc)
  then show ?thesis using ne by (simp add: gulf_line_def)
qed

lemma gulf_record_times:
  assumes "py_split (filter (\<lambda>c. c \<noteq> 91 \<and> c \<noteq> 93) time) = [start, fin]"
  shows "gulf_record rt tc split stem idx time spk0 text0
           = gulf_segment rt tc split stem idx start fin (gulf_spk spk0) text0"
  using assms by (simp add: gulf_record_def)

lemma gulf_segment_emit:
  assumes "py_Decimal rt fin = Some e" "py_Decimal rt start = Some s" "0 < e - s"
    and "txt = (if tc then cleaning_gulf rt text0 else text0)" "txt \<noteq> []"
    and "gulf_channel split spk = Inr ch" "py_float rt start = Some st"
  shows "gulf_segment rt tc split stem idx start fin spk text0
           = Inr (Some (callhome_segment stem spk idx st (e - s) txt ch))"
  using assms by (simp add: gulf_segment_def Let_def)

lemma gulf_segment_type_error:
  assumes "py_Decimal rt fin = Some e" "py_Decimal rt start = Some s" "0 < e - s"
    and "(if tc then cleaning_gulf rt text0 else text0) \<noteq> []"
    and "gulf_channel split spk = Inl err"
  shows "gulf_segment rt tc split stem idx start fin spk text0 = Inl err"
  using assms by (simp add: gulf_segment_def Let_def)

lemma gulf_segment_inv:
  assumes "gulf_segment rt tc split stem idx start fin spk text0 = Inr (Some seg)"
  shows "\<exists>st dur ch. seg = callhome_segment stem spk idx st dur
             (if tc then cleaning_gulf rt text0 else text0) ch
           \<and> gulf_channel split spk = Inr ch \<and> 0 < dur
           \<and> (if tc then cleaning_gulf rt text0 else text0) \<noteq> []"
proof -
  let ?txt = "if tc then cleaning_gulf rt text0 else text0"
  from assms obtain e s ch st
    where "seg = callhome_segment stem spk idx st (e - s) ?txt ch"
      and "gulf_channel split spk = Inr ch" and "0 < e - s" and "?txt \<noteq> []"
    by (auto simp: gulf_segment_def Let_def split: option.splits sum.splits if_splits)
  then show ?thesis by blast
qed

lemma gulf_record_inv:
  assumes "gulf_record rt tc split stem idx time spk0 text0 = Inr (Some seg)"
  shows "\<exists>start fin. gulf_segment rt tc split stem idx start fin (gulf_spk spk0) text0
            = Inr (Some seg)"
  using assms by (auto simp: gulf_record_def split: list.splits)

lemma gulf_line_inv:
  assumes "gulf_line rt tc split stem idx raw = Inr (Some seg)"
  shows "\<exists>time spk0 text0 bw. split_on 9 (py_strip raw) = [time, spk0, text0, bw]
           \<and> gulf_record rt tc split stem idx time spk0 text0 = Inr (Some seg)"
  using assms by (auto simp: gulf_line_def Let_def split: list.splits if_splits)

lemma callhome_segment_fields:
  "seg_id (callhome_segment rid spk idx st dur tx ch) = callhome_id rid spk idx"
  "seg_recording_id (callhome_segment rid spk idx st dur tx ch) = rid"
  "seg_start (callhome_segment rid spk idx st dur tx ch) = st"
  "seg_duration (callhome_segment rid spk idx st dur tx ch) = dur"
  "seg_channel (callhome_segment rid spk idx st dur tx ch) = ch"
  "seg_text (callhome_segment rid spk idx st dur tx ch) = tx"
  by (simp_all add: callhome_segment_def)

lemma gulf_line_emitted:
  assumes "gulf_line rt tc split stem idx raw = Inr (Some seg)"
  shows "seg_id seg = callhome_id stem (gulf_spk (split_on 9 (py_strip raw) ! 1)) idx"
    and "gulf_channel split (gulf_spk (split_on 9 (py_strip raw) ! 1)) = Inr (seg_channel seg)"
    and "0 < seg_duration seg" and "seg_text seg \<noteq> []" and "seg_recording_id seg = stem"
proof -
  from gulf_line_inv [OF assms] obtain time spk0 text0 bw
    where f: "split_on 9 (py_strip raw) = [time, spk0, text0, bw]"
      and r: "gulf_record rt tc split stem idx time spk0 text0 = Inr (Some seg)"
    by blast
  from gulf_record_inv [OF r] obtain start fin
    where "gulf_segment rt tc split stem idx start fin (gulf_spk spk0) text0 = Inr (Some seg)"
    by blast
  from gulf_segment_inv [OF this] obtain st dur ch
    where seg: "seg = callhome_segment stem (gulf_spk spk0) idx st dur
             (if tc then cleaning_gulf rt text0 else text0) ch"
      and ch: "gulf_channel split (gulf_spk spk0) = Inr ch" and d: "0 < dur"
      and t: "(if tc then cleaning_gulf rt text0 else text0) \<noteq> []"
    by blast
  have one: "split_on 9 (py_strip raw) ! 1 = spk0" unfolding f by simp
  show "seg_id seg = callhome_id stem (gulf_spk (split_on 9 (py_strip raw) ! 1)) idx"
    unfolding one seg by (rule callhome_segment_fields)
  show "gulf_channel split (gulf_spk (split_on 9 (py_strip raw) ! 1)) = Inr (seg_channel seg)"
    unfolding one seg callhome_segment_fields by (rule ch)
  show "0 < seg_duration seg" unfolding seg callhome_segment_fields by (rule d)
  show "seg_text seg \<noteq> []" unfolding seg callhome_segment_fields by (rule t)
  show "seg_recording_id seg = stem" unfolding seg by (rule callhome_segment_fields)
qed

subsection \<open>Iterating over lines and files\<close>

lemma gulf_lines_append:
  "gulf_lines rt tc split stem idx pre = Inr a \<Longrightarrow>
     gulf_lines rt tc split stem idx (pre @ rest)
       = (case gulf_lines rt tc split stem (idx + length a) rest of
            Inl err \<Rightarrow> Inl err | Inr b \<Rightarrow> Inr (a @ b))"
proof (induction pre arbitrary: idx a)
  case Nil
  then show ?case by (simp split: sum.splits)
next
  case (Cons raw pre)
  show ?case
  proof (cases "gulf_line rt tc split stem idx raw")
    case (Inl err)
    with Cons.prems show ?thesis by simp
  next
    case (Inr r)
    show ?thesis
    proof (cases r)
      case None
      with Inr Cons show ?thesis by simp
    next
      case (Some seg)
      with Inr Cons.prems obtain a' where a': "gulf_lines rt tc split stem (idx + 1) pre = Inr a'"
        and a: "a = seg # a'"
        by (auto split: sum.splits)
      from Cons.IH [OF a'] Inr Some a show ?thesis
        by (simp split: sum.splits)
    qed
  qed
qed

lemma gulf_lines_error:
  assumes "gulf_lines rt tc split stem idx pre = Inr a"
    and "gulf_line rt tc split stem (idx + length a) raw = Inl err"
  shows "gulf_lines rt tc split stem idx (pre @ raw # post) = Inl err"
  using gulf_lines_append [OF assms(1), of "raw # post"] assms(2) by simp

lemma gulf_files_error:
  assumes "gulf_files rt tc split before = Inr a"
    and "gulf_lines rt tc split stem 0 lines = Inl err"
  shows "gulf_files rt tc split (before @ (stem, lines) # after) = Inl err"
  using assms
proof (induction before arbitrary: a)
  case Nil
  then show ?case by simp
next
  case (Cons f before)
  obtain st ls where f: "f = (st, ls)" by (cases f)
  from Cons.prems(1) obtain x y where "gulf_lines rt tc split st 0 ls = Inr x"
    and "gulf_files rt tc split before = Inr y"
    unfolding f by (auto split: sum.splits)
  with Cons.IH [OF _ Cons.prems(2)] show ?case unfolding f by simp
qed

subsection \<open>Segment ids of the tab and whitespace formats\<close>

lemma callhome_id_eq:
  assumes "callhome_id rid spk idx = callhome_id rid' spk' idx'"
  shows "idx = idx'" and "rid @ [95] @ pad_left 48 2 spk = rid' @ [95] @ pad_left 48 2 spk'"
proof -
  have d: "95 \<notin> set (pad_left 48 5 (str_nat idx))" "95 \<notin> set (pad_left 48 5 (str_nat idx'))"
    using digits_no_sep [OF pad_str_nat_digits] by blast+
  from assms have "(rid @ [95] @ pad_left 48 2 spk) @ 95 # pad_left 48 5 (str_nat idx)
      = (rid' @ [95] @ pad_left 48 2 spk') @ 95 # pad_left 48 5 (str_nat idx')"
    by (simp add: callhome_id_def)
  from append_sep_unique [OF d this]
  have a: "rid @ [95] @ pad_left 48 2 spk = rid' @ [95] @ pad_left 48 2 spk'"
    and b: "pad_left 48 5 (str_nat idx) = pad_left 48 5 (str_nat idx')"
    by simp_all
  show "idx = idx'" using b by (rule pad_str_nat_inj)
  show "rid @ [95] @ pad_left 48 2 spk = rid' @ [95] @ pad_left 48 2 spk'" by (rule a)
qed

lemma counted_from_mono: "counted_from rid one (Suc idx) seg \<Longrightarrow> counted_from rid one idx seg"
  unfolding counted_from_def by (meson Suc_leD)

lemma counted_from_fresh:
  assumes "seg_id seg = callhome_id rid spk idx"
    and "\<forall>s\<in>set rest. counted_from rid' one (Suc idx) s"
  shows "seg_id seg \<notin> set (map seg_id rest)"
proof
  assume "seg_id seg \<in> set (map seg_id rest)"
  then obtain s where s: "s \<in> set rest" and eq: "seg_id s = seg_id seg" by auto
  from assms(2) s have "counted_from rid' one (Suc idx) s" by blast
  then obtain k spk' where k: "Suc idx \<le> k" and sid: "seg_id s = callhome_id rid' spk' k"
    unfolding counted_from_def by blast
  from eq sid assms(1) have "callhome_id rid' spk' k = callhome_id rid spk idx" by simp
  then have "k = idx" by (rule callhome_id_eq)
  with k show False by simp
qed

lemma gulf_channel_two:
  "split \<noteq> asc ''train1c'' \<Longrightarrow> gulf_channel split spk = Inr ch \<Longrightarrow>
     \<exists>c. spk = [c] \<and> ch = int c - 65"
  by (auto simp: gulf_channel_def split: list.splits)

lemma gulf_lines_ids:
  "gulf_lines rt tc split stem idx ls = Inr segs \<Longrightarrow>
     distinct (map seg_id segs)
     \<and> (\<forall>seg\<in>set segs. counted_from stem (split \<noteq> asc ''train1c'') idx seg)"
proof (induction ls arbitrary: idx segs)
  case Nil
  then show ?case by simp
next
  case (Cons raw ls)
  let ?one = "split \<noteq> asc ''train1c''"
  show ?case
  proof (cases "gulf_line rt tc split stem idx raw")
    case (Inl err)
    with Cons.prems show ?thesis by simp
  next
    case (Inr r)
    show ?thesis
    proof (cases r)
      case None
      with Inr Cons show ?thesis by simp
    next
      case (Some seg)
      with Inr Cons.prems obtain rest
        where rest: "gulf_lines rt tc split stem (Suc idx) ls = Inr rest"
          and segs: "segs = seg # rest"
        by (auto split: sum.splits)
      from Cons.IH [OF rest] have dr: "distinct (map seg_id rest)"
        and fr: "\<forall>s\<in>set rest. counted_from stem ?one (Suc idx) s"
        by simp_all
      let ?spk = "gulf_spk (split_on 9 (py_strip raw) ! 1)"
      from Inr Some have emitted: "gulf_line rt tc split stem idx raw = Inr (Some seg)" by simp
      then have sid: "seg_id seg = callhome_id stem ?spk idx"
        by (rule gulf_line_emitted)
      from emitted have ch: "gulf_channel split ?spk = Inr (seg_channel seg)"
        by (rule gulf_line_emitted)
      have fresh: "seg_id seg \<notin> set (map seg_id rest)"
        using sid fr by (rule counted_from_fresh)
      have "?one \<longrightarrow> length ?spk = 1"
        using gulf_channel_two [OF _ ch] by auto
      then have "counted_from stem ?one idx seg"
        unfolding counted_from_def using sid by blast
      moreover have "\<forall>s\<in>set rest. counted_from stem ?one idx s"
        using fr counted_from_mono by blast
      ultimately show ?thesis using dr fresh segs by simp
    qed
  qed
qed

lemma one_char_id_stem:
  assumes "callhome_id rid spk k = callhome_id rid' spk' k'"
    and "length spk = 1" "length spk' = 1"
  shows "rid = rid'"
proof -
  from assms(2,3) obtain c c' where "spk = [c]" "spk' = [c']"
    by (auto simp: length_Suc_conv)
  with callhome_id_eq(2) [OF assms(1)] have "rid @ [95, 48, c] = rid' @ [95, 48, c']"
    by (simp add: pad_left_def numeral_2_eq_2)
  then show ?thesis by simp
qed

lemma counted_from_disjoint:
  assumes a: "\<forall>s\<in>set a. counted_from rid True i s"
    and b: "\<forall>s\<in>set b. \<exists>rid'. rid' \<in> R \<and> counted_from rid' True 0 s"
    and n: "rid \<notin> R"
  shows "set (map seg_id a) \<inter> set (map seg_id b) = {}"
proof (rule ccontr)
  assume "set (map seg_id a) \<inter> set (map seg_id b) \<noteq> {}"
  then obtain x y where x: "x \<in> set a" and y: "y \<in> set b" and eq: "seg_id x = seg_id y"
    by auto
  from a x have "counted_from rid True i x" by blast
  then obtain k spk where xs: "seg_id x = callhome_id rid spk k" and l: "length spk = 1"
    unfolding counted_from_def by blast
  from b y obtain rid' where r: "rid' \<in> R" and "counted_from rid' True 0 y" by blast
  then obtain k' spk' where ys: "seg_id y = callhome_id rid' spk' k'" and l': "length spk' = 1"
    unfolding counted_from_def by blast
  from eq xs ys have "callhome_id rid spk k = callhome_id rid' spk' k'" by simp
  then have "rid = rid'" using l l' by (rule one_char_id_stem)
  with r n show False by simp
qed

lemma counted_from_zero: "counted_from rid one i s \<Longrightarrow> counted_from rid one 0 s"
  unfolding counted_from_def by auto

lemma gulf_files_ids:
  assumes two: "split \<noteq> asc ''train1c''"
  shows "gulf_files rt tc split files = Inr segs \<Longrightarrow> distinct (map fst files) \<Longrightarrow>
     distinct (map seg_id segs)
     \<and> (\<forall>seg\<in>set segs. \<exists>stem. stem \<in> fst ` set files \<and> counted_from stem True 0 seg)"
proof (induction files arbitrary: segs)
  case Nil
  then show ?case by simp
next
  case (Cons f files)
  obtain stem ls where f: "f = (stem, ls)" by (cases f)
  from Cons.prems(1) obtain a b where a: "gulf_lines rt tc split stem 0 ls = Inr a"
    and b: "gulf_files rt tc split files = Inr b" and segs: "segs = a @ b"
    unfolding f by (auto split: sum.splits)
  from gulf_lines_ids [OF a] two have da: "distinct (map seg_id a)"
    and fa: "\<forall>seg\<in>set a. counted_from stem True 0 seg"
    by simp_all
  from Cons.prems(2) have df: "distinct (map fst files)" and nf: "stem \<notin> fst ` set files"
    unfolding f by auto
  from Cons.IH [OF b df] have db: "distinct (map seg_id b)"
    and fb: "\<forall>seg\<in>set b. \<exists>stem'. stem' \<in> fst ` set files \<and> counted_from stem' True 0 seg"
    by simp_all
  have disj: "set (map seg_id a) \<inter> set (map seg_id b) = {}"
    using fa fb nf by (rule counted_from_disjoint)
  have "\<forall>seg\<in>set segs. \<exists>stem'. stem' \<in> fst ` set (f # files) \<and> counted_from stem' True 0 seg"
  proof
    fix seg assume "seg \<in> set segs"
    then consider "seg \<in> set a" | "seg \<in> set b" using segs by auto
    then show "\<exists>stem'. stem' \<in> fst ` set (f # files) \<and> counted_from stem' True 0 seg"
    proof cases
      case 1
      with fa have "counted_from stem True 0 seg" by blast
      moreover have "stem \<in> fst ` set (f # files)" unfolding f by simp
      ultimately show ?thesis by blast
    next
      case 2
      with fb obtain stem' where "stem' \<in> fst ` set files" "counted_from stem' True 0 seg"
        by blast
      moreover from this have "stem' \<in> fst ` set (f # files)" by simp
      ultimately show ?thesis by blast
    qed
  qed
  with da db disj segs show ?case by simp
qed

subsection \<open>Levantine lines\<close>

lemma levant_line_skip:
  "py_strip raw = [] \<or> length (py_split (py_strip raw)) < 4 \<Longrightarrow>
     levant_line rt tc stem idx raw = Inr None"
  by (simp add: levant_line_def)

lemma levant_line_four:
  assumes "4 \<le> length (py_split (py_strip raw))"
    and "py_split_max 3 (py_strip raw) = [start, fin, spk0, text0]"
  shows "levant_line rt tc stem idx raw
           = levant_segment rt tc (py_lower rt stem) idx start fin (str_replace [58] [] spk0) text0"
proof -
  have "py_strip raw \<noteq> []" using assms(2) by (auto simp: py_split_max.simps)
  then show ?thesis using assms by (simp add: levant_line_def)
qed

lemma levant_segment_emit:
  assumes "py_Decimal rt fin = Some e" "py_Decimal rt start = Some s" "0 < e - s"
    and "tx = (if tc then cleaning_levant rt text0 else text0)" "tx \<noteq> []"
    and "py_float rt start = Some st"
  shows "levant_segment rt tc rid idx start fin [c] text0
           = Inr (Some (callhome_segment rid [c] idx st (e - s) tx (int c - 65)))"
  using assms by (simp add: levant_segment_def Let_def)

lemma levant_segment_type_error:
  assumes "py_Decimal rt fin = Some e" "py_Decimal rt start = Some s" "0 < e - s"
    and "(if tc then cleaning_levant rt text0 else text0) \<noteq> []"
    and "py_float rt start = Some st" and "length spk \<noteq> 1"
  shows "levant_segment rt tc rid idx start fin spk text0 = Inl TypeError"
proof -
  from assms(6) have "case_list (Inl TypeError) (\<lambda>c cs. case cs of [] \<Rightarrow> f c | _ \<Rightarrow> Inl TypeError) spk
      = (Inl TypeError :: error + segment option)" for f
    by (cases spk) (auto split: list.splits)
  then show ?thesis using assms(1-5) by (simp add: levant_segment_def Let_def)
qed

lemma levant_segment_inv:
  assumes "levant_segment rt tc rid idx start fin spk text0 = Inr (Some seg)"
  shows "\<exists>st dur c. spk = [c] \<and> seg = callhome_segment rid [c] idx st dur
             (if tc then cleaning_levant rt text0 else text0) (int c - 65)
           \<and> 0 < dur \<and> (if tc then cleaning_levant rt text0 else text0) \<noteq> []"
proof -
  let ?tx = "if tc then cleaning_levant rt text0 else text0"
  from assms obtain e s c st
    where "spk = [c]" and "seg = callhome_segment rid [c] idx st (e - s) ?tx (int c - 65)"
      and "0 < e - s" and "?tx \<noteq> []"
    by (auto simp: levant_segment_def Let_def split: option.splits list.splits if_splits)
  then show ?thesis by blast
qed

lemma levant_line_inv:
  assumes "levant_line rt tc stem idx raw = Inr (Some seg)"
  shows "\<exists>start fin spk0 text0. py_split_max 3 (py_strip raw) = [start, fin, spk0, text0]
           \<and> levant_segment rt tc (py_lower rt stem) idx start fin (str_replace [58] [] spk0) text0
               = Inr (Some seg)"
  using assms by (auto simp: levant_line_def Let_def split: list.splits if_splits)

lemma levant_line_emitted:
  assumes "levant_line rt tc stem idx raw = Inr (Some seg)"
  shows "\<exists>c. str_replace [58] [] (py_split_max 3 (py_strip raw) ! 2) = [c]
           \<and> seg_id seg = callhome_id (py_lower rt stem) [c] idx
           \<and> seg_channel seg = int c - 65"
    and "0 < seg_duration seg" and "seg_text seg \<noteq> []"
    and "seg_recording_id seg = py_lower rt stem"
proof -
  from levant_line_inv [OF assms] obtain start fin spk0 text0
    where f: "py_split_max 3 (py_strip raw) = [start, fin, spk0, text0]"
      and r: "levant_segment rt tc (py_lower rt stem) idx start fin (str_replace [58] [] spk0) text0
               = Inr (Some seg)"
    by blast
  from levant_segment_inv [OF r] obtain st dur c
    where spk: "str_replace [58] [] spk0 = [c]"
      and seg: "seg = callhome_segment (py_lower rt stem) [c] idx st dur
             (if tc then cleaning_levant rt text0 else text0) (int c - 65)"
      and d: "0 < dur" and t: "(if tc then cleaning_levant rt text0 else text0) \<noteq> []"
    by blast
  have two: "py_split_max 3 (py_strip raw) ! 2 = spk0" unfolding f by simp
  show "\<exists>c. str_replace [58] [] (py_split_max 3 (py_strip raw) ! 2) = [c]
           \<and> seg_id seg = callhome_id (py_lower rt stem) [c] idx
           \<and> seg_channel seg = int c - 65"
    unfolding two seg callhome_segment_fields using spk by simp
  show "0 < seg_duration seg" unfolding seg callhome_segment_fields by (rule d)
  show "seg_text seg \<noteq> []" unfolding seg callhome_segment_fields by (rule t)
  show "seg_recording_id seg = py_lower rt stem" unfolding seg by (rule callhome_segment_fields)
qed

lemma levant_lines_append:
  "levant_lines rt tc stem idx pre = Inr a \<Longrightarrow>
     levant_lines rt tc stem idx (pre @ rest)
       = (case levant_lines rt tc stem (idx + length a) rest of
            Inl err \<Rightarrow> Inl err | Inr b \<Rightarrow> Inr (a @ b))"
proof (induction pre arbitrary: idx a)
  case Nil
  then show ?case by (simp split: sum.splits)
next
  case (Cons raw pre)
  show ?case
  proof (cases "levant_line rt tc stem idx raw")
    case (Inl err)
    with Cons.prems show ?thesis by simp
  next
    case (Inr r)
    show ?thesis
    proof (cases r)
      case None
      with Inr Cons show ?thesis by simp
    next
      case (Some seg)
      with Inr Cons.prems obtain a' where a': "levant_lines rt tc stem (idx + 1) pre = Inr a'"
        and a: "a = seg # a'"
        by (auto split: sum.splits)
      from Cons.IH [OF a'] Inr Some a show ?thesis
        by (simp split: sum.splits)
    qed
  qed
qed

lemma levant_lines_error:
  assumes "levant_lines rt tc stem idx pre = Inr a"
    and "levant_line rt tc stem (idx + length a) raw = Inl err"
  shows "levant_lines rt tc stem idx (pre @ raw # post) = Inl err"
  using levant_lines_append [OF assms(1), of "raw # post"] assms(2) by simp

lemma levant_files_error:
  assumes "levant_files rt tc before = Inr a"
    and "levant_lines rt tc stem 0 lines = Inl err"
  shows "levant_files rt tc (before @ (stem, lines) # after) = Inl err"
  using assms
proof (induction before arbitrary: a)
  case Nil
  then show ?case by simp
next
  case (Cons f before)
  obtain st ls where f: "f = (st, ls)" by (cases f)
  from Cons.prems(1) obtain x y where "levant_lines rt tc st 0 ls = Inr x"
    and "levant_files rt tc before = Inr y"
    unfolding f by (auto split: sum.splits)
  with Cons.IH [OF _ Cons.prems(2)] show ?case unfolding f by simp
qed

lemma levant_lines_ids:
  "levant_lines rt tc stem idx ls = Inr segs \<Longrightarrow>
     distinct (map seg_id segs)
     \<and> (\<forall>seg\<in>set segs. counted_from (py_lower rt stem) True idx seg)"
proof (induction ls arbitrary: idx segs)
  case Nil
  then show ?case by simp
next
  case (Cons raw ls)
  show ?case
  proof (cases "levant_line rt tc stem idx raw")
    case (Inl err)
    with Cons.prems show ?thesis by simp
  next
    case (Inr r)
    show ?thesis
    proof (cases r)
      case None
      with Inr Cons show ?thesis by simp
    next
      case (Some seg)
      with Inr Cons.prems obtain rest
        where rest: "levant_lines rt tc stem (Suc idx) ls = Inr rest"
          and segs: "segs = seg # rest"
        by (auto split: sum.splits)
      from Cons.IH [OF rest] have dr: "distinct (map seg_id rest)"
        and fr: "\<forall>s\<in>set rest. counted_from (py_lower rt stem) True (Suc idx) s"
        by simp_all
      from Inr Some have "levant_line rt tc stem idx raw = Inr (Some seg)" by simp
      from levant_line_emitted(1) [OF this] obtain c
        where sid: "seg_id seg = callhome_id (py_lower rt stem) [c] idx" by blast
      have fresh: "seg_id seg \<notin> set (map seg_id rest)"
        using sid fr by (rule counted_from_fresh)
      have "length [c] = 1" by simp
      then have "counted_from (py_lower rt stem) True idx seg"
        unfolding counted_from_def using sid by blast
      moreover have "\<forall>s\<in>set rest. counted_from (py_lower rt stem) True idx s"
        using fr counted_from_mono by blast
      ultimately show ?thesis using dr fresh segs by simp
    qed
  qed
qed

lemma levant_files_ids:
  "levant_files rt tc files = Inr segs \<Longrightarrow> distinct (map (\<lambda>f. py_lower rt (fst f)) files) \<Longrightarrow>
     distinct (map seg_id segs)
     \<and> (\<forall>seg\<in>set segs. \<exists>rid. rid \<in> (\<lambda>f. py_lower rt (fst f)) ` set files
            \<and> counted_from rid True 0 seg)"
proof (induction files arbitrary: segs)
  case Nil
  then show ?case by simp
next
  case (Cons f files)
  let ?low = "\<lambda>f. py_lower rt (fst f)"
  obtain stem ls where f: "f = (stem, ls)" by (cases f)
  from Cons.prems(1) obtain a b where a: "levant_lines rt tc stem 0 ls = Inr a"
    and b: "levant_files rt tc files = Inr b" and segs: "segs = a @ b"
    unfolding f by (auto split: sum.splits)
  from levant_lines_ids [OF a] have da: "distinct (map seg_id a)"
    and fa: "\<forall>seg\<in>set a. counted_from (py_lower rt stem) True 0 seg"
    by simp_all
  from Cons.prems(2) have df: "distinct (map ?low files)"
    and nf: "py_lower rt stem \<notin> ?low ` set files"
    unfolding f by auto
  from Cons.IH [OF b df] have db: "distinct (map seg_id b)"
    and fb: "\<forall>seg\<in>set b. \<exists>rid. rid \<in> ?low ` set files \<and> counted_from rid True 0 seg"
    by simp_all
  have disj: "set (map seg_id a) \<inter> set (map seg_id b) = {}"
    using fa fb nf by (rule counted_from_disjoint)
  have "\<forall>seg\<in>set segs. \<exists>rid. rid \<in> ?low ` set (f # files) \<and> counted_from rid True 0 seg"
  proof
    fix seg assume "seg \<in> set segs"
    then consider "seg \<in> set a" | "seg \<in> set b" using segs by auto
    then show "\<exists>rid. rid \<in> ?low ` set (f # files) \<and> counted_from rid True 0 seg"
    proof cases
      case 1
      with fa have "counted_from (py_lower rt stem) True 0 seg" by blast
      moreover have "py_lower rt stem \<in> ?low ` set (f # files)" unfolding f by simp
      ultimately show ?thesis by blast
    next
      case 2
      with fb obtain rid where "rid \<in> ?low ` set files" "counted_from rid True 0 seg"
        by blast
      moreover from this have "rid \<in> ?low ` set (f # files)" by simp
      ultimately show ?thesis by blast
    qed
  qed
  with da db disj segs show ?case by simp
qed

subsection \<open>Splitting and replacing\<close>

lemma split_on_pieces: "w \<in> set (split_on c s) \<Longrightarrow> c \<notin> set w \<and> set w \<subseteq> set s"
proof (induction s arbitrary: w)
  case Nil
  then show ?case by simp
next
  case (Cons a s)
  show ?case
  proof (cases "a = c")
    case True
    with Cons.prems have "w = [] \<or> w \<in> set (split_on c s)" by simp
    with Cons.IH show ?thesis by auto
  next
    case False
    obtain v vs where sp: "split_on c s = v # vs"
      using split_on_not_Nil [of c s] by (cases "split_on c s") auto
    with False Cons.prems have "w = a # v \<or> w \<in> set vs" by simp
    moreover have "c \<notin> set v \<and> set v \<subseteq> set s" using Cons.IH [of v] sp by simp
    moreover have "w \<in> set vs \<Longrightarrow> c \<notin> set w \<and> set w \<subseteq> set s"
      using Cons.IH [of w] sp by simp
    ultimately show ?thesis using False by auto
  qed
qed

lemma set_str_replace_del: "set (str_replace w [] s) \<subseteq> set s"
proof (induction w "[] :: ustr" s rule: str_replace.induct)
  case (1 old)
  show ?case by simp
next
  case (2 old c cs)
  show ?case
  proof (cases "old = []")
    case True
    with 2 show ?thesis by auto
  next
    case False
    show ?thesis
    proof (cases "starts_with old (c # cs)")
      case True
      have "set (drop (length old) (c # cs)) \<subseteq> set (c # cs)" by (rule set_drop_subset)
      with True False 2(2) show ?thesis by auto
    next
      case nomatch: False
      with False 2(3) show ?thesis by auto
    qed
  qed
qed

subsection \<open>The flat format\<close>

lemma qasr_decode_inv:
  assumes "qasr_decode rt raw = Inr fr"
  shows "\<exists>line1 words spk0 time p q rest.
           py_split (py_strip raw) = line1 # words
         \<and> split_on 95 line1 = [fr_rec_id fr, spk0, time]
         \<and> split_on 45 spk0 = p # q # rest \<and> py_int rt q = Some (fr_spk fr)
         \<and> split_on 58 (str_replace (asc ''seg-'') [] time) = [fr_s_time1 fr, fr_e_time1 fr]
         \<and> fr_text fr = py_join [32] words"
  using assms
  by (auto simp: qasr_decode_def split: list.splits option.splits)

lemma qasr_decode_no_sep:
  assumes "qasr_decode rt raw = Inr fr"
  shows "95 \<notin> set (fr_rec_id fr)" "95 \<notin> set (fr_s_time1 fr)" "95 \<notin> set (fr_e_time1 fr)"
proof -
  from qasr_decode_inv [OF assms] obtain line1 spk0 time
    where l: "split_on 95 line1 = [fr_rec_id fr, spk0, time]"
      and t: "split_on 58 (str_replace (asc ''seg-'') [] time) = [fr_s_time1 fr, fr_e_time1 fr]"
    by blast
  have "fr_rec_id fr \<in> set (split_on 95 line1)" "time \<in> set (split_on 95 line1)"
    unfolding l by simp_all
  then have nr: "95 \<notin> set (fr_rec_id fr)" and nt: "95 \<notin> set time"
    using split_on_pieces by blast+
  show "95 \<notin> set (fr_rec_id fr)" by (rule nr)
  have "fr_s_time1 fr \<in> set (split_on 58 (str_replace (asc ''seg-'') [] time))"
    "fr_e_time1 fr \<in> set (split_on 58 (str_replace (asc ''seg-'') [] time))"
    unfolding t by simp_all
  then have "set (fr_s_time1 fr) \<subseteq> set (str_replace (asc ''seg-'') [] time)"
    "set (fr_e_time1 fr) \<subseteq> set (str_replace (asc ''seg-'') [] time)"
    using split_on_pieces by blast+
  then show "95 \<notin> set (fr_s_time1 fr)" "95 \<notin> set (fr_e_time1 fr)"
    using nt set_str_replace_del [of "asc ''seg-''" time] by blast+
qed

lemma qasr_id_eq:
  assumes a: "95 \<notin> set (fr_rec_id x)" "95 \<notin> set (fr_s_time1 x)" "95 \<notin> set (fr_e_time1 x)"
    and b: "95 \<notin> set (fr_rec_id y)" "95 \<notin> set (fr_s_time1 y)" "95 \<notin> set (fr_e_time1 y)"
  shows "qasr_id x = qasr_id y \<longleftrightarrow>
     fr_rec_id x = fr_rec_id y \<and> fr_spk x = fr_spk y \<and> fr_s_time1 x = fr_s_time1 y
       \<and> fr_e_time1 x = fr_e_time1 y"
proof
  assume "fr_rec_id x = fr_rec_id y \<and> fr_spk x = fr_spk y \<and> fr_s_time1 x = fr_s_time1 y
       \<and> fr_e_time1 x = fr_e_time1 y"
  then show "qasr_id x = qasr_id y" by (simp add: qasr_id_def)
next
  assume "qasr_id x = qasr_id y"
  then have "(fr_rec_id x @ 95 # str_int (fr_spk x) @ 95 # fr_s_time1 x) @ 95 # fr_e_time1 x
      = (fr_rec_id y @ 95 # str_int (fr_spk y) @ 95 # fr_s_time1 y) @ 95 # fr_e_time1 y"
    by (simp add: qasr_id_def)
  from append_sep_unique [OF a(3) b(3) this]
  have e: "fr_e_time1 x = fr_e_time1 y"
    and "(fr_rec_id x @ 95 # str_int (fr_spk x)) @ 95 # fr_s_time1 x
      = (fr_rec_id y @ 95 # str_int (fr_spk y)) @ 95 # fr_s_time1 y"
    by simp_all
  from append_sep_unique [OF a(2) b(2) this(2)]
  have s: "fr_s_time1 x = fr_s_time1 y"
    and "fr_rec_id x @ 95 # str_int (fr_spk x) = fr_rec_id y @ 95 # str_int (fr_spk y)"
    by simp_all
  from append_sep_unique [OF str_int_no_sep str_int_no_sep this(2)]
  have r: "fr_rec_id x = fr_rec_id y" and "str_int (fr_spk x) = str_int (fr_spk y)"
    by simp_all
  from this(2) have "fr_spk x = fr_spk y" by (rule str_int_inj)
  with r s e show "fr_rec_id x = fr_rec_id y \<and> fr_spk x = fr_spk y
      \<and> fr_s_time1 x = fr_s_time1 y \<and> fr_e_time1 x = fr_e_time1 y" by simp
qed

lemma qasr_line_inv:
  assumes "qasr_line rt raw = Inr seg"
  shows "\<exists>fr. qasr_decode rt raw = Inr fr \<and> seg_id seg = qasr_id fr
           \<and> seg_text seg = fr_text fr \<and> seg_recording_id seg = fr_rec_id fr"
  using assms
  by (auto simp: qasr_line_def qasr_segment_def split: sum.splits option.splits)

lemma qasr_line_decode_error:
  "qasr_decode rt raw = Inl err \<Longrightarrow> qasr_line rt raw = Inl err"
  by (simp add: qasr_line_def)

lemma read_text_append:
  "read_text rt pre = Inr a \<Longrightarrow>
     read_text rt (pre @ rest)
       = (case read_text rt rest of Inl err \<Rightarrow> Inl err | Inr b \<Rightarrow> Inr (a @ b))"
proof (induction pre arbitrary: a)
  case Nil
  then show ?case by (simp split: sum.splits)
next
  case (Cons raw pre)
  from Cons.prems obtain seg a' where "qasr_line rt raw = Inr seg"
    and a': "read_text rt pre = Inr a'" and "a = seg # a'"
    by (auto split: sum.splits)
  with Cons.IH [OF a'] show ?case by (simp split: sum.splits)
qed

lemma read_text_error:
  assumes "read_text rt pre = Inr a" and "qasr_line rt raw = Inl err"
  shows "read_text rt (pre @ raw # post) = Inl err"
  using read_text_append [OF assms(1), of "raw # post"] assms(2) by simp

lemma read_text_all:
  "read_text rt ls = Inr segs \<Longrightarrow> list_all2 (\<lambda>raw seg. qasr_line rt raw = Inr seg) ls segs"
proof (induction ls arbitrary: segs)
  case Nil
  then show ?case by simp
next
  case (Cons raw ls)
  from Cons.prems obtain seg rest where "qasr_line rt raw = Inr seg"
    and r: "read_text rt ls = Inr rest" and "segs = seg # rest"
    by (auto split: sum.splits)
  with Cons.IH [OF r] show ?case by simp
qed

lemma read_text_map:
  assumes "\<And>x. x \<in> set xs \<Longrightarrow> qasr_line rt (f x) = Inr (g x)"
  shows "read_text rt (map f xs) = Inr (map g xs)"
  using assms by (induction xs) simp_all

subsection \<open>Zero filling\<close>

lemma zfill_str_int:
  "zfill w (str_int i) =
     (if i < 0 then 45 # replicate (w - Suc (length (str_nat (nat (- i))))) 48 @ str_nat (nat (- i))
      else pad_left 48 w (str_nat (nat i)))"
proof (cases "i < 0")
  case True
  then show ?thesis by (simp add: zfill_def str_int_def)
next
  case False
  obtain c cs where s: "str_nat (nat i) = c # cs"
    using str_nat_not_Nil [of "nat i"] by (cases "str_nat (nat i)") auto
  have "ascii_digit c" using str_nat_digits [of "nat i"] unfolding s by simp
  then have "c \<noteq> 43 \<and> c \<noteq> 45" by (auto simp: ascii_digit_def)
  with False s show ?thesis by (simp add: zfill_def str_int_def pad_left_def)
qed

lemma length_zfill: "length (zfill w s) = max w (length s)"
  by (cases s) (auto simp: zfill_def)

lemma zfill_width:
  assumes "0 \<le> n" "n < 10 ^ w" "0 < w"
  shows "length (zfill w (str_int n)) = w \<and> list_all ascii_digit (zfill w (str_int n))"
proof -
  have "nat n < 10 ^ w" using assms(1,2) by (simp add: nat_less_iff)
  with assms(3) have "length (str_nat (nat n)) \<le> w" by (rule length_str_nat)
  moreover have "zfill w (str_int n) = pad_left 48 w (str_nat (nat n))"
    using assms(1) by (simp add: zfill_str_int)
  ultimately show ?thesis
    using pad_str_nat_digits [of w "nat n"] by (simp add: length_pad_left)
qed

end
